theory Spec2Isabelle
  imports Complex_Main
begin

section \<open>Agent-based SIR / SIS epidemic simulation\<close>

text \<open>
  Shallow embedding of \<^verbatim>\<open>src/sir.py\<close> (\<^verbatim>\<open>create_SIR_simulation\<close>) and
  \<^verbatim>\<open>src/sis.py\<close> (\<^verbatim>\<open>create_SIS_simulation\<close>).

  \<^item> A person is the Python list \<^verbatim>\<open>[state, x, y]\<close>; it is a record here. The lists
    \<^verbatim>\<open>infected\<close>, \<^verbatim>\<open>new_infected\<close>, \<^verbatim>\<open>recover\<close> and the grid cells hold
    references to the person objects of \<^verbatim>\<open>people\<close>. People are never removed from
    \<^verbatim>\<open>people\<close>, so the identity of a person is its index in \<^verbatim>\<open>people\<close>, and
    every list of references is a list of indices into the store \<^verbatim>\<open>people\<close>.
  \<^item> Python integers are \<open>int\<close>. Floats are idealised as \<open>real\<close>: the probabilities,
    the square root of \<^verbatim>\<open>find_distance\<close> and the infection radius, which may be an
    integer (the default \<^verbatim>\<open>10\<close>) or a float. Coordinates are integers. A conversion
    of an integer to a float raises \<^verbatim>\<open>OverflowError\<close> beyond the range of a float;
    what floats do inside their range (rounding, \<^verbatim>\<open>inf\<close>, \<^verbatim>\<open>nan\<close>) has no
    counterpart here.
  \<^item> The random generator is an infinite stream of raw draws, threaded through every
    call in the order of the source. \<^verbatim>\<open>random.random()\<close> is a 53-bit fraction,
    \<^verbatim>\<open>random.randint(a, b)\<close> an integer of \<open>[a, b]\<close> and a \<^verbatim>\<open>ValueError\<close> when
    the range is empty.
  \<^item> Exceptions are values of type \<open>error\<close>; every function that can raise returns a sum.
  \<^item> Of the display and the file output only what can stop the run is kept:
    \<^verbatim>\<open>pygame.display.set_mode\<close> refuses a negative size and
    \<^verbatim>\<open>imageio.mimsave\<close> an empty list of frames. Drawing and the contents of the
    files do not influence the simulation and are left out.
  \<^item> The solver \<^verbatim>\<open>odeint\<close> calls the model function, passes on what it raises, and
    returns one row per entry of its time grid; the rows themselves are not computed.
\<close>

subsection \<open>Data\<close>

datatype status = St_S | St_I | St_R

record person =
  status :: status
  xpos :: int
  ypos :: int

text \<open>
  The exceptions of the program: the built-in ones, \<^verbatim>\<open>pygame.error\<close>, and the
  \<^verbatim>\<open>RuntimeError\<close> of \<^verbatim>\<open>imageio\<close>.
\<close>

datatype error = ValueError | ZeroDivisionError | IndexError | OverflowError
  | PygameError | RuntimeError

record config =
  width :: int
  height :: int
  number_of_people :: int
  num_infected :: int
  infect_rate :: real
  recover_rate :: real
  infect_distance :: real
  max_move :: int
  max_days :: int
  simulation_name :: string

subsection \<open>Integers and floats\<close>

text \<open>
  \<^verbatim>\<open>float(n)\<close> of an integer and the true division \<^verbatim>\<open>a / b\<close> of two integers are
  correctly rounded, and raise \<^verbatim>\<open>OverflowError\<close> when the rounded result is beyond the
  largest float, that is when the exact result reaches \<open>2\<^sup>1\<^sup>0\<^sup>2\<^sup>4 - 2\<^sup>9\<^sup>7\<^sup>0\<close> in absolute value.
\<close>

definition float_limit :: real where
  "float_limit = 2 ^ 1024 - 2 ^ 970"

definition to_float :: "int \<Rightarrow> error + real" where
  "to_float n =
     (if float_limit \<le> \<bar>real_of_int n\<bar> then Inl OverflowError else Inr (real_of_int n))"

definition true_divide :: "int \<Rightarrow> int \<Rightarrow> error + real" where
  "true_divide a b =
     (if b = 0 then Inl ZeroDivisionError
      else if float_limit \<le> \<bar>real_of_int a / real_of_int b\<bar> then Inl OverflowError
      else Inr (real_of_int a / real_of_int b))"

subsection \<open>Random generator\<close>

type_synonym rng = "nat \<Rightarrow> nat"

definition rng_next :: "rng \<Rightarrow> rng" where
  "rng_next g = (\<lambda>n. g (Suc n))"

definition random_random :: "rng \<Rightarrow> real \<times> rng" where
  "random_random g = (real (g 0 mod 2 ^ 53) / 2 ^ 53, rng_next g)"

definition randint :: "int \<Rightarrow> int \<Rightarrow> rng \<Rightarrow> error + (int \<times> rng)" where
  "randint a b g =
     (if a > b then Inl ValueError
      else Inr (a + int (g 0 mod nat (b - a + 1)), rng_next g))"

text \<open>A generator that replays a finite list of draws and then yields zeros.\<close>

definition replay :: "nat list \<Rightarrow> rng" where
  "replay xs = (\<lambda>n. if n < length xs then xs ! n else 0)"

subsection \<open>Initial placement\<close>

text \<open>
  \<^verbatim>\<open>for _ in range(number_of_people)\<close>: each person draws its state, comparing
  \<^verbatim>\<open>random.random()\<close> with \<^verbatim>\<open>num_infected / number_of_people\<close>, then draws
  \<^verbatim>\<open>random.randint(0, width)\<close> and \<^verbatim>\<open>random.randint(0, height)\<close>.
\<close>

fun place :: "config \<Rightarrow> nat \<Rightarrow> person list \<Rightarrow> nat list \<Rightarrow> rng
    \<Rightarrow> error + (person list \<times> nat list \<times> rng)" where
  "place c 0 pop infd g = Inr (pop, infd, g)"
| "place c (Suc k) pop infd g =
     (let (u, g1) = random_random g
      in case true_divide (num_infected c) (number_of_people c) of
           Inl e \<Rightarrow> Inl e
         | Inr q \<Rightarrow>
             (let s = (if u < q then St_I else St_S)
              in case randint 0 (width c) g1 of
                   Inl e \<Rightarrow> Inl e
                 | Inr (x, g2) \<Rightarrow>
                     (case randint 0 (height c) g2 of
                        Inl e \<Rightarrow> Inl e
                      | Inr (y, g3) \<Rightarrow>
                          place c k (pop @ [\<lparr>status = s, xpos = x, ypos = y\<rparr>])
                            (if s = St_I then infd @ [length pop] else infd) g3)))"

definition initialise :: "config \<Rightarrow> rng \<Rightarrow> error + (person list \<times> nat list \<times> rng)" where
  "initialise c g = place c (nat (number_of_people c)) [] [] g"

subsection \<open>Distance and grid\<close>

definition find_distance :: "person \<Rightarrow> person \<Rightarrow> real" where
  "find_distance p1 p2 =
     sqrt (real_of_int ((xpos p1 - xpos p2)\<^sup>2 + (ypos p1 - ypos p2)\<^sup>2))"

text \<open>
  \<^verbatim>\<open>x // cell_size\<close> is the floor of the quotient, for an integer and for a float
  cell size alike, and raises \<^verbatim>\<open>ZeroDivisionError\<close> for a zero cell size. For a
  float cell size the cell indices are floats with integral values; they are integers
  here.
\<close>

definition get_cell :: "int \<Rightarrow> int \<Rightarrow> real \<Rightarrow> error + (int \<times> int)" where
  "get_cell x y cell_size =
     (if cell_size = 0 then Inl ZeroDivisionError
      else Inr (\<lfloor>real_of_int x / cell_size\<rfloor>, \<lfloor>real_of_int y / cell_size\<rfloor>))"

type_synonym grid = "(int \<times> int) \<rightharpoonup> nat list"

fun populate_grid_loop :: "person list \<Rightarrow> real \<Rightarrow> nat list \<Rightarrow> grid \<Rightarrow> error + grid" where
  "populate_grid_loop pop cell_size [] grid = Inr grid"
| "populate_grid_loop pop cell_size (p # ps) grid =
     (case get_cell (xpos (pop ! p)) (ypos (pop ! p)) cell_size of
        Inl e \<Rightarrow> Inl e
      | Inr cell \<Rightarrow>
          populate_grid_loop pop cell_size ps
            (grid(cell \<mapsto> (case grid cell of None \<Rightarrow> [] | Some l \<Rightarrow> l) @ [p])))"

definition populate_grid :: "person list \<Rightarrow> real \<Rightarrow> error + grid" where
  "populate_grid pop cell_size =
     populate_grid_loop pop cell_size [0..<length pop] Map.empty"

definition neighbor_cells :: "int \<times> int \<Rightarrow> (int \<times> int) list" where
  "neighbor_cells cell =
     concat (map (\<lambda>dx. map (\<lambda>dy. (fst cell + dx, snd cell + dy)) [-1, 0, 1]) [-1, 0, 1])"

subsection \<open>One step\<close>

type_synonym scan_state = "person list \<times> nat list \<times> rng"

definition contact :: "config \<Rightarrow> nat \<Rightarrow> nat \<Rightarrow> scan_state \<Rightarrow> scan_state" where
  "contact c i p = (\<lambda>(pop, new_infected, g).
     if status (pop ! p) = St_S
        \<and> find_distance (pop ! i) (pop ! p) < infect_distance c
     then (let (u, g') = random_random g
           in if u < infect_rate c
              then (pop[p := (pop ! p)\<lparr>status := St_I\<rparr>], new_infected @ [p], g')
              else (pop, new_infected, g'))
     else (pop, new_infected, g))"

definition scan_cell :: "config \<Rightarrow> grid \<Rightarrow> nat \<Rightarrow> int \<times> int \<Rightarrow> scan_state \<Rightarrow> scan_state" where
  "scan_cell c grid i neighbor_cell st =
     (case grid neighbor_cell of None \<Rightarrow> st | Some ps \<Rightarrow> fold (contact c i) ps st)"

type_synonym step_state = "person list \<times> nat list \<times> nat list \<times> rng"

text \<open>
  The body of \<^verbatim>\<open>for i in infected\<close>. The parameter \<open>rs\<close> is the state written on
  recovery: \<^verbatim>\<open>'R'\<close> in \<^verbatim>\<open>sir.py\<close>, \<^verbatim>\<open>'S'\<close> in \<^verbatim>\<open>sis.py\<close>; the two \<^verbatim>\<open>step\<close>
  functions differ in nothing else.
\<close>

definition visit :: "config \<Rightarrow> status \<Rightarrow> grid \<Rightarrow> real \<Rightarrow> nat \<Rightarrow> step_state \<Rightarrow> error + step_state" where
  "visit c rs grid cell_size i = (\<lambda>(pop, new_infected, recover, g).
     case get_cell (xpos (pop ! i)) (ypos (pop ! i)) cell_size of
       Inl e \<Rightarrow> Inl e
     | Inr cell \<Rightarrow>
         (let (pop1, new1, g1) =
                fold (scan_cell c grid i) (neighbor_cells cell) (pop, new_infected, g);
              (u, g2) = random_random g1
          in if u < recover_rate c
             then Inr (pop1[i := (pop1 ! i)\<lparr>status := rs\<rparr>], new1, recover @ [i], g2)
             else Inr (pop1, new1, recover, g2)))"

fun visit_all :: "config \<Rightarrow> status \<Rightarrow> grid \<Rightarrow> real \<Rightarrow> nat list \<Rightarrow> step_state \<Rightarrow> error + step_state" where
  "visit_all c rs grid cell_size [] st = Inr st"
| "visit_all c rs grid cell_size (i # rest) st =
     (case visit c rs grid cell_size i st of
        Inl e \<Rightarrow> Inl e
      | Inr st' \<Rightarrow> visit_all c rs grid cell_size rest st')"

text \<open>
  \<^verbatim>\<open>infected.remove(r)\<close> removes the first element that is equal to \<^verbatim>\<open>r\<close>; list
  equality in Python compares the contents \<^verbatim>\<open>[state, x, y]\<close>, not the identity. It
  raises \<^verbatim>\<open>ValueError\<close> when there is none.
\<close>

fun list_remove :: "person list \<Rightarrow> nat \<Rightarrow> nat list \<Rightarrow> error + nat list" where
  "list_remove pop r [] = Inl ValueError"
| "list_remove pop r (j # js) =
     (if pop ! j = pop ! r then Inr js
      else case list_remove pop r js of Inl e \<Rightarrow> Inl e | Inr js' \<Rightarrow> Inr (j # js'))"

fun remove_recovered :: "person list \<Rightarrow> nat list \<Rightarrow> nat list \<Rightarrow> error + nat list" where
  "remove_recovered pop [] infd = Inr infd"
| "remove_recovered pop (r # rs) infd =
     (case list_remove pop r infd of
        Inl e \<Rightarrow> Inl e
      | Inr infd' \<Rightarrow> remove_recovered pop rs infd')"

definition step :: "config \<Rightarrow> status \<Rightarrow> person list \<Rightarrow> nat list \<Rightarrow> real \<Rightarrow> rng
    \<Rightarrow> error + (person list \<times> nat list \<times> nat \<times> rng)" where
  "step c rs pop infd cell_size g =
     (case populate_grid pop cell_size of
        Inl e \<Rightarrow> Inl e
      | Inr grid \<Rightarrow>
          (case visit_all c rs grid cell_size infd (pop, [], [], g) of
             Inl e \<Rightarrow> Inl e
           | Inr (pop', new_infected, recover, g') \<Rightarrow>
               (case remove_recovered pop' recover infd of
                  Inl e \<Rightarrow> Inl e
                | Inr infd' \<Rightarrow> Inr (pop', infd' @ new_infected, length recover, g'))))"

subsection \<open>Movement\<close>

definition clamp :: "int \<Rightarrow> int \<Rightarrow> int" where
  "clamp bound v =
     (let v1 = (if v < 1 then 1 else v)
      in if v1 > bound - 1 then bound - 1 else v1)"

fun move_all :: "config \<Rightarrow> person list \<Rightarrow> rng \<Rightarrow> error + (person list \<times> rng)" where
  "move_all c [] g = Inr ([], g)"
| "move_all c (p # ps) g =
     (case randint (max_move c * -1) (max_move c) g of
        Inl e \<Rightarrow> Inl e
      | Inr (d1, g1) \<Rightarrow>
          (case randint (max_move c * -1) (max_move c) g1 of
             Inl e \<Rightarrow> Inl e
           | Inr (d2, g2) \<Rightarrow>
               (case move_all c ps g2 of
                  Inl e \<Rightarrow> Inl e
                | Inr (ps', g3) \<Rightarrow>
                    Inr (p\<lparr>xpos := clamp (width c) (xpos p + d1),
                            ypos := clamp (height c) (ypos p + d2)\<rparr> # ps', g3))))"

subsection \<open>Time grid of the compartmental model\<close>

text \<open>
  \<^verbatim>\<open>np.linspace(start, stop, num)\<close> as numpy documents it: \<open>num\<close> evenly spaced
  samples over the closed interval from \<open>start\<close> to \<open>stop\<close>, the last one being
  \<open>stop\<close>, a single sample \<open>start\<close> when \<open>num = 1\<close>, and a \<^verbatim>\<open>ValueError\<close> for a
  negative \<open>num\<close>.
\<close>

definition linspace :: "real \<Rightarrow> real \<Rightarrow> int \<Rightarrow> error + real list" where
  "linspace start stop num =
     (if num < 0 then Inl ValueError
      else if num = 1 then Inr [start]
      else Inr (map (\<lambda>k. start + real k * ((stop - start) / real_of_int (num - 1)))
                  [0..<nat num]))"

subsection \<open>Display, files and solver\<close>

text \<open>
  \<^verbatim>\<open>pygame.display.set_mode((width, height))\<close> raises \<^verbatim>\<open>pygame.error\<close> for a
  negative width or height; a zero selects the size of the screen. Sizes that a
  particular display cannot provide are outside the embedding.
\<close>

definition set_mode :: "int \<Rightarrow> int \<Rightarrow> error + unit" where
  "set_mode w h = (if w < 0 \<or> h < 0 then Inl PygameError else Inr ())"

text \<open>\<^verbatim>\<open>imageio.mimsave(path, frames)\<close> raises when there is no frame to write.\<close>

definition mimsave :: "'a list \<Rightarrow> error + unit" where
  "mimsave ims = (if ims = [] then Inl RuntimeError else Inr ())"

text \<open>
  \<^verbatim>\<open>sir_model\<close> and \<^verbatim>\<open>sis_model\<close>. The product of the dimensions is converted to a
  float and divides; \<^verbatim>\<open>**\<close> is the real power for a positive base \<open>1 - beta\<close>. For
  \<open>1 - beta \<le> 0\<close> the power of a numpy float is \<^verbatim>\<open>nan\<close>, \<^verbatim>\<open>inf\<close> or a number,
  without an exception; the derivative has no real value to be compared with there, and
  nothing below reads it.
\<close>

definition sir_model :: "real \<times> real \<times> real \<Rightarrow> real \<Rightarrow> real \<Rightarrow> real \<Rightarrow> real \<Rightarrow> int \<times> int
    \<Rightarrow> error + (real \<times> real \<times> real)" where
  "sir_model y tm beta gamma radius dimensions =
     (case y of (S, I, R) \<Rightarrow>
        (case to_float (fst dimensions * snd dimensions) of
           Inl e \<Rightarrow> Inl e
         | Inr area \<Rightarrow>
             if area = 0 then Inl ZeroDivisionError
             else
               (let circle_probability = (pi * radius * radius) / area;
                    accurate_beta = 1 - (1 - beta) powr (circle_probability * I);
                    dS_dt = - accurate_beta * S;
                    dI_dt = accurate_beta * S - gamma * I;
                    dR_dt = gamma * I
                in Inr (dS_dt, dI_dt, dR_dt))))"

definition sis_model :: "real \<times> real \<Rightarrow> real \<Rightarrow> real \<Rightarrow> real \<Rightarrow> real \<Rightarrow> int \<times> int
    \<Rightarrow> error + (real \<times> real)" where
  "sis_model y tm beta gamma radius dimensions =
     (case y of (S, I) \<Rightarrow>
        (case to_float (fst dimensions * snd dimensions) of
           Inl e \<Rightarrow> Inl e
         | Inr area \<Rightarrow>
             if area = 0 then Inl ZeroDivisionError
             else
               (let circle_probability = (pi * radius * radius) / area;
                    accurate_beta = 1 - (1 - beta) powr (circle_probability * I);
                    dS_dt = - accurate_beta * S + gamma * I;
                    dI_dt = accurate_beta * S - gamma * I
                in Inr (dS_dt, dI_dt))))"

text \<open>
  \<^verbatim>\<open>odeint(func, y0, t)\<close>, as far as it is modelled: the value is the number of rows of
  the solution, one per entry of \<open>t\<close>; an exception of \<open>func\<close> at the initial
  condition is passed on. The call sites convert the integers of
  \<^verbatim>\<open>initial_conditions\<close> to floats first, as \<^verbatim>\<open>odeint\<close> does. An empty \<open>t\<close> is
  refused; the runs never pass one.
\<close>

definition odeint :: "('y \<Rightarrow> real \<Rightarrow> error + 'y) \<Rightarrow> 'y \<Rightarrow> real list \<Rightarrow> error + nat" where
  "odeint func y0 ts =
     (case ts of
        [] \<Rightarrow> Inl ValueError
      | t0 # _ \<Rightarrow> (case func y0 t0 of Inl e \<Rightarrow> Inl e | Inr _ \<Rightarrow> Inr (length ts)))"

subsection \<open>The SIR run\<close>

text \<open>
  The state of the \<^verbatim>\<open>while\<close> loop. A frame is the screen after the people have been
  drawn; it is represented by the people drawn.
\<close>

record sir_state =
  people :: "person list"
  infected :: "nat list"
  frames :: "person list list"
  step_count :: int
  simulated_S :: "int list"
  simulated_I :: "int list"
  simulated_R :: "int list"
  gen :: rng

text \<open>The body of the \<^verbatim>\<open>while\<close> loop of \<^verbatim>\<open>create_SIR_simulation\<close>.\<close>

definition SIR_day :: "config \<Rightarrow> sir_state \<Rightarrow> error + sir_state" where
  "SIR_day c s =
     (case step c St_R (people s) (infected s) (infect_distance c) (gen s) of
        Inl e \<Rightarrow> Inl e
      | Inr (pop, infd, recovered_amount, g1) \<Rightarrow>
          (case move_all c pop g1 of
             Inl e \<Rightarrow> Inl e
           | Inr (pop', g2) \<Rightarrow>
               if simulated_R s = [] then Inl IndexError
               else
                 (let sim_R = simulated_R s @ [last (simulated_R s) + int recovered_amount];
                      sim_I = simulated_I s @ [int (length infd)];
                      sim_S = simulated_S s @ [number_of_people c - last sim_I - last sim_R]
                  in Inr \<lparr>people = pop', infected = infd, frames = frames s @ [pop'],
                          step_count = step_count s + 1,
                          simulated_S = sim_S, simulated_I = sim_I, simulated_R = sim_R,
                          gen = g2\<rparr>)))"

function SIR_loop :: "config \<Rightarrow> sir_state \<Rightarrow> error + sir_state" where
  "SIR_loop c s =
     (if length (infected s) > 0 \<and> step_count s \<le> max_days c
      then (case SIR_day c s of Inl e \<Rightarrow> Inl e | Inr s' \<Rightarrow> SIR_loop c s')
      else Inr s)"
  by pat_completeness auto
termination
  by (relation "measure (\<lambda>(c, s). nat (max_days c + 1 - step_count s))")
     (auto simp: SIR_day_def Let_def split: sum.splits prod.splits if_splits)

declare SIR_loop.simps [simp del]

record sir_result =
  final :: sir_state
  t :: "real list"
  model_rows :: nat
  output_gif_path :: string
  graph_gif_path :: string

text \<open>
  \<^verbatim>\<open>create_SIR_simulation\<close> in three parts: placement and the opening of the display;
  the day loop; and, after the loop, the writing of the frames, the time grid and the
  solution of the model.
\<close>

definition SIR_setup :: "config \<Rightarrow> rng \<Rightarrow> error + sir_state" where
  "SIR_setup c g =
     (case initialise c g of
        Inl e \<Rightarrow> Inl e
      | Inr (pop, infd, g1) \<Rightarrow>
          (case set_mode (width c) (height c) of
             Inl e \<Rightarrow> Inl e
           | Inr _ \<Rightarrow>
               Inr \<lparr>people = pop, infected = infd, frames = [], step_count = 0,
                    simulated_S = [number_of_people c - num_infected c],
                    simulated_I = [num_infected c], simulated_R = [0], gen = g1\<rparr>))"

definition SIR_run :: "config \<Rightarrow> rng \<Rightarrow> error + sir_state" where
  "SIR_run c g = (case SIR_setup c g of Inl e \<Rightarrow> Inl e | Inr s0 \<Rightarrow> SIR_loop c s0)"

definition SIR_finish :: "config \<Rightarrow> sir_state \<Rightarrow> error + sir_result" where
  "SIR_finish c s =
     (case mimsave (frames s) of
        Inl e \<Rightarrow> Inl e
      | Inr _ \<Rightarrow>
          (case linspace 0 (real_of_int (step_count s + 1)) (step_count s + 1) of
             Inl e \<Rightarrow> Inl e
           | Inr ts \<Rightarrow>
               (case to_float (number_of_people c - num_infected c) of
                  Inl e \<Rightarrow> Inl e
                | Inr S0 \<Rightarrow>
                    (case to_float (num_infected c) of
                       Inl e \<Rightarrow> Inl e
                     | Inr I0 \<Rightarrow>
                         (case odeint (\<lambda>y tm. sir_model y tm (infect_rate c) (recover_rate c)
                                         (infect_distance c) (width c, height c))
                                 (S0, I0, 0) ts of
                            Inl e \<Rightarrow> Inl e
                          | Inr rows \<Rightarrow>
                              Inr \<lparr>final = s, t = ts, model_rows = rows,
                                   output_gif_path =
                                     ''simulations/'' @ simulation_name c @ ''_SIR.gif'',
                                   graph_gif_path =
                                     ''graphs/'' @ simulation_name c @ ''SIR_graph.gif''\<rparr>)))))"

definition create_SIR_simulation :: "config \<Rightarrow> rng \<Rightarrow> error + sir_result" where
  "create_SIR_simulation c g =
     (case SIR_run c g of Inl e \<Rightarrow> Inl e | Inr s \<Rightarrow> SIR_finish c s)"

subsection \<open>The SIS run\<close>

record sis_state =
  sis_people :: "person list"
  sis_infected :: "nat list"
  sis_frames :: "person list list"
  sis_step_count :: int
  sis_simulated_S :: "int list"
  sis_simulated_I :: "int list"
  sis_gen :: rng

definition SIS_day :: "config \<Rightarrow> sis_state \<Rightarrow> error + sis_state" where
  "SIS_day c s =
     (case step c St_S (sis_people s) (sis_infected s) (infect_distance c) (sis_gen s) of
        Inl e \<Rightarrow> Inl e
      | Inr (pop, infd, recovered_amount, g1) \<Rightarrow>
          (case move_all c pop g1 of
             Inl e \<Rightarrow> Inl e
           | Inr (pop', g2) \<Rightarrow>
               (let sim_I = sis_simulated_I s @ [int (length infd)];
                    sim_S = sis_simulated_S s @ [number_of_people c - last sim_I]
                in Inr \<lparr>sis_people = pop', sis_infected = infd,
                        sis_frames = sis_frames s @ [pop'],
                        sis_step_count = sis_step_count s + 1,
                        sis_simulated_S = sim_S, sis_simulated_I = sim_I, sis_gen = g2\<rparr>)))"

function SIS_loop :: "config \<Rightarrow> sis_state \<Rightarrow> error + sis_state" where
  "SIS_loop c s =
     (if length (sis_infected s) > 0 \<and> sis_step_count s \<le> max_days c
      then (case SIS_day c s of Inl e \<Rightarrow> Inl e | Inr s' \<Rightarrow> SIS_loop c s')
      else Inr s)"
  by pat_completeness auto
termination
  by (relation "measure (\<lambda>(c, s). nat (max_days c + 1 - sis_step_count s))")
     (auto simp: SIS_day_def Let_def split: sum.splits prod.splits)

declare SIS_loop.simps [simp del]

record sis_result =
  sis_final :: sis_state
  sis_t :: "real list"
  sis_model_rows :: nat
  sis_output_gif_path :: string
  sis_graph_gif_path :: string

text \<open>
  \<^verbatim>\<open>create_SIS_simulation\<close> starts by assigning \<^verbatim>\<open>simulation_name = 'simulation1'\<close>,
  \<^verbatim>\<open>infect_distance = 10\<close> and \<^verbatim>\<open>max_move = 5\<close> to its own parameters: whatever
  the caller passed, the run uses the configuration \<open>fixed c\<close>.
\<close>

abbreviation fixed :: "config \<Rightarrow> config" where
  "fixed c \<equiv> c\<lparr>simulation_name := ''simulation1'', infect_distance := 10, max_move := 5\<rparr>"

definition SIS_setup :: "config \<Rightarrow> rng \<Rightarrow> error + sis_state" where
  "SIS_setup c g =
     (case initialise c g of
        Inl e \<Rightarrow> Inl e
      | Inr (pop, infd, g1) \<Rightarrow>
          (case set_mode (width c) (height c) of
             Inl e \<Rightarrow> Inl e
           | Inr _ \<Rightarrow>
               Inr \<lparr>sis_people = pop, sis_infected = infd, sis_frames = [], sis_step_count = 0,
                    sis_simulated_S = [number_of_people c - num_infected c],
                    sis_simulated_I = [num_infected c], sis_gen = g1\<rparr>))"

definition SIS_finish :: "config \<Rightarrow> sis_state \<Rightarrow> error + sis_result" where
  "SIS_finish c s =
     (case mimsave (sis_frames s) of
        Inl e \<Rightarrow> Inl e
      | Inr _ \<Rightarrow>
          (case linspace 0 (real_of_int (sis_step_count s + 1)) (sis_step_count s + 1) of
             Inl e \<Rightarrow> Inl e
           | Inr ts \<Rightarrow>
               (case to_float (number_of_people c - num_infected c) of
                  Inl e \<Rightarrow> Inl e
                | Inr S0 \<Rightarrow>
                    (case to_float (num_infected c) of
                       Inl e \<Rightarrow> Inl e
                     | Inr I0 \<Rightarrow>
                         (case odeint (\<lambda>y tm. sis_model y tm (infect_rate c) (recover_rate c)
                                         (infect_distance c) (width c, height c))
                                 (S0, I0) ts of
                            Inl e \<Rightarrow> Inl e
                          | Inr rows \<Rightarrow>
                              Inr \<lparr>sis_final = s, sis_t = ts, sis_model_rows = rows,
                                   sis_output_gif_path =
                                     ''simulations/'' @ simulation_name c @ ''_SIS.gif'',
                                   sis_graph_gif_path =
                                     ''graphs/'' @ simulation_name c @ ''_SIS_graph.gif''\<rparr>)))))"

text \<open>The part of \<^verbatim>\<open>create_SIS_simulation\<close> up to the end of the day loop, and the
  whole of it.\<close>

definition SIS_run :: "config \<Rightarrow> rng \<Rightarrow> error + sis_state" where
  "SIS_run c0 g =
     (let c = c0\<lparr>simulation_name := ''simulation1'', infect_distance := 10, max_move := 5\<rparr>
      in case SIS_setup c g of Inl e \<Rightarrow> Inl e | Inr s0 \<Rightarrow> SIS_loop c s0)"

definition create_SIS_simulation :: "config \<Rightarrow> rng \<Rightarrow> error + sis_result" where
  "create_SIS_simulation c0 g =
     (let c = c0\<lparr>simulation_name := ''simulation1'', infect_distance := 10, max_move := 5\<rparr>
      in case SIS_run c0 g of Inl e \<Rightarrow> Inl e | Inr s \<Rightarrow> SIS_finish c s)"

subsection \<open>Concrete configurations and inputs\<close>

text \<open>The default configuration of \<^verbatim>\<open>sir.py\<close> with a single person.\<close>

definition cfg_one :: config where
  "cfg_one = \<lparr>width = 500, height = 500, number_of_people = 1, num_infected = 1,
     infect_rate = 0.8, recover_rate = 0.15, infect_distance = 10, max_move = 5,
     max_days = 100, simulation_name = ''simulation1''\<rparr>"

text \<open>Two people, one requested seed.\<close>

definition cfg_two :: config where
  "cfg_two = \<lparr>width = 500, height = 500, number_of_people = 2, num_infected = 1,
     infect_rate = 0.8, recover_rate = 0.15, infect_distance = 10, max_move = 5,
     max_days = 100, simulation_name = ''simulation1''\<rparr>"

text \<open>
  A configuration with a zero width, more seeds than people and both rates above 1.
\<close>

definition cfg_invalid :: config where
  "cfg_invalid = \<lparr>width = 0, height = 500, number_of_people = 1, num_infected = 5,
     infect_rate = 2, recover_rate = 3, infect_distance = 10, max_move = 5,
     max_days = 100, simulation_name = ''simulation1''\<rparr>"

text \<open>A negative width, with one person and with nobody.\<close>

definition cfg_negative :: config where
  "cfg_negative = cfg_one\<lparr>width := - 1\<rparr>"

definition cfg_negative_empty :: config where
  "cfg_negative_empty = cfg_one\<lparr>width := - 1, number_of_people := 0, num_infected := 0\<rparr>"

text \<open>The default configuration with two people and a contact that always succeeds.\<close>

definition cfg_sure :: config where
  "cfg_sure = cfg_two\<lparr>infect_rate := 1\<rparr>"

text \<open>A caller of the SIS variant asking for radius 1, no movement and a name.\<close>

definition cfg_custom :: config where
  "cfg_custom = \<lparr>width = 500, height = 500, number_of_people = 2, num_infected = 1,
     infect_rate = 0.8, recover_rate = 0.15, infect_distance = 1, max_move = 0,
     max_days = 0, simulation_name = ''run7''\<rparr>"

text \<open>The raw draw whose 53-bit fraction is one half.\<close>

definition half :: nat where
  "half = 2 ^ 52"

text \<open>The results of some runs on these configurations. On the all-zero generator
  both people of \<open>cfg_two\<close> are placed infected and recover on the first day.\<close>

definition res_SIR_two :: sir_result where
  "res_SIR_two =
     \<lparr>final = \<lparr>people = [\<lparr>status = St_R, xpos = 1, ypos = 1\<rparr>,
                          \<lparr>status = St_R, xpos = 1, ypos = 1\<rparr>],
                infected = [],
                frames = [ [\<lparr>status = St_R, xpos = 1, ypos = 1\<rparr>,
                           \<lparr>status = St_R, xpos = 1, ypos = 1\<rparr>] ],
                step_count = 1, simulated_S = [1, 0], simulated_I = [1, 0],
                simulated_R = [0, 2], gen = replay []\<rparr>,
      t = [0, 2], model_rows = 2,
      output_gif_path = ''simulations/simulation1_SIR.gif'',
      graph_gif_path = ''graphs/simulation1SIR_graph.gif''\<rparr>"

text \<open>One person who stays infected on the first day and recovers on the second.\<close>

definition rng_two_days :: rng where
  "rng_two_days = replay [0, 0, 0, half, 0, 0]"

definition res_SIR_two_days :: sir_result where
  "res_SIR_two_days =
     \<lparr>final = \<lparr>people = [\<lparr>status = St_R, xpos = 1, ypos = 1\<rparr>], infected = [],
                frames = [ [\<lparr>status = St_I, xpos = 1, ypos = 1\<rparr>],
                          [\<lparr>status = St_R, xpos = 1, ypos = 1\<rparr>] ],
                step_count = 2, simulated_S = [0, 0, 0], simulated_I = [1, 1, 0],
                simulated_R = [0, 0, 1], gen = replay []\<rparr>,
      t = [0, 3 / 2, 3], model_rows = 3,
      output_gif_path = ''simulations/simulation1_SIR.gif'',
      graph_gif_path = ''graphs/simulation1SIR_graph.gif''\<rparr>"

text \<open>
  An infected person at \<open>(100, 100)\<close>, a susceptible one at \<open>(103, 104)\<close>, five units
  away; the contact succeeds, nobody recovers, the first person moves by \<open>(3, 0)\<close>.
\<close>

definition rng_custom :: rng where
  "rng_custom = replay [0, 100, 100, half, 103, 104, 0, half, 8, 5, 5, 5]"

definition res_SIS_custom :: sis_result where
  "res_SIS_custom =
     \<lparr>sis_final = \<lparr>sis_people = [\<lparr>status = St_I, xpos = 103, ypos = 100\<rparr>,
                                  \<lparr>status = St_I, xpos = 103, ypos = 104\<rparr>],
                    sis_infected = [0, 1],
                    sis_frames = [ [\<lparr>status = St_I, xpos = 103, ypos = 100\<rparr>,
                                   \<lparr>status = St_I, xpos = 103, ypos = 104\<rparr>] ],
                    sis_step_count = 1,
                    sis_simulated_S = [1, 0], sis_simulated_I = [1, 2],
                    sis_gen = replay []\<rparr>,
      sis_t = [0, 2], sis_model_rows = 2,
      sis_output_gif_path = ''simulations/simulation1_SIS.gif'',
      sis_graph_gif_path = ''graphs/simulation1_SIS_graph.gif''\<rparr>"

text \<open>The state in which the day loop ends on \<open>cfg_invalid\<close> and the all-zero generator,
  after one day.\<close>

definition run_invalid :: sir_state where
  "run_invalid =
     \<lparr>people = [\<lparr>status = St_R, xpos = - 1, ypos = 1\<rparr>], infected = [],
      frames = [ [\<lparr>status = St_R, xpos = - 1, ypos = 1\<rparr>] ],
      step_count = 1, simulated_S = [- 4, 0], simulated_I = [5, 0],
      simulated_R = [0, 1], gen = replay []\<rparr>"

text \<open>The same with positive dimensions and a negative \<open>infect_rate\<close>, and the result
  of the run on it.\<close>

definition cfg_rates :: config where
  "cfg_rates = \<lparr>width = 500, height = 500, number_of_people = 1, num_infected = 5,
     infect_rate = - 1 / 2, recover_rate = 3, infect_distance = 10, max_move = 5,
     max_days = 100, simulation_name = ''simulation1''\<rparr>"

definition res_SIR_rates :: sir_result where
  "res_SIR_rates =
     \<lparr>final = \<lparr>people = [\<lparr>status = St_R, xpos = 1, ypos = 1\<rparr>], infected = [],
                frames = [ [\<lparr>status = St_R, xpos = 1, ypos = 1\<rparr>] ],
                step_count = 1, simulated_S = [- 4, 0], simulated_I = [5, 0],
                simulated_R = [0, 1], gen = replay []\<rparr>,
      t = [0, 2], model_rows = 2,
      output_gif_path = ''simulations/simulation1_SIR.gif'',
      graph_gif_path = ''graphs/simulation1SIR_graph.gif''\<rparr>"

text \<open>Populations for single steps: two people in neighbouring cells, and three
  infected people of whom the first two stand on the same point.\<close>

definition pop_cells :: "person list" where
  "pop_cells = [\<lparr>status = St_I, xpos = 9, ypos = 5\<rparr>, \<lparr>status = St_S, xpos = 12, ypos = 5\<rparr>]"

definition pop_pair :: "person list" where
  "pop_pair = [\<lparr>status = St_I, xpos = 5, ypos = 5\<rparr>, \<lparr>status = St_I, xpos = 6, ypos = 5\<rparr>]"

definition pop_twins :: "person list" where
  "pop_twins = [\<lparr>status = St_I, xpos = 5, ypos = 5\<rparr>, \<lparr>status = St_I, xpos = 5, ypos = 5\<rparr>,
                \<lparr>status = St_I, xpos = 6, ypos = 5\<rparr>]"

text \<open>The SIS run of \<open>cfg_custom\<close> on the all-zero generator: both people are placed
  infected, on the same point.\<close>

definition res_SIS_seeded :: sis_result where
  "res_SIS_seeded =
     \<lparr>sis_final = \<lparr>sis_people = [\<lparr>status = St_I, xpos = 1, ypos = 1\<rparr>,
                                  \<lparr>status = St_S, xpos = 1, ypos = 1\<rparr>],
                    sis_infected = [0],
                    sis_frames = [ [\<lparr>status = St_I, xpos = 1, ypos = 1\<rparr>,
                                   \<lparr>status = St_S, xpos = 1, ypos = 1\<rparr>] ],
                    sis_step_count = 1,
                    sis_simulated_S = [1, 1], sis_simulated_I = [1, 1],
                    sis_gen = replay []\<rparr>,
      sis_t = [0, 2], sis_model_rows = 2,
      sis_output_gif_path = ''simulations/simulation1_SIS.gif'',
      sis_graph_gif_path = ''graphs/simulation1_SIS_graph.gif''\<rparr>"

text \<open>The cell of the \<open>p\<close>-th person, for a non-zero cell size.\<close>

definition cell_of :: "person list \<Rightarrow> real \<Rightarrow> nat \<Rightarrow> int \<times> int" where
  "cell_of pop cell_size p =
     (\<lfloor>real_of_int (xpos (pop ! p)) / cell_size\<rfloor>, \<lfloor>real_of_int (ypos (pop ! p)) / cell_size\<rfloor>)"

text \<open>
  The people that the scan of the nine cells around \<open>cell\<close> iterates over, in the order
  of the scan.
\<close>

definition candidates :: "grid \<Rightarrow> int \<times> int \<Rightarrow> nat list" where
  "candidates grid cell =
     concat (map (\<lambda>nc. case grid nc of None \<Rightarrow> [] | Some ps \<Rightarrow> ps) (neighbor_cells cell))"

text \<open>Three people, all requested as seeds.\<close>

definition cfg_three :: config where
  "cfg_three = \<lparr>width = 500, height = 500, number_of_people = 3, num_infected = 3,
     infect_rate = 0.8, recover_rate = 0.15, infect_distance = 10, max_move = 5,
     max_days = 100, simulation_name = ''simulation1''\<rparr>"

subsection \<open>Consistency of the infected list\<close>

text \<open>
  The infected list is consistent with the population when it holds exactly the people
  in state \<^verbatim>\<open>'I'\<close>, each once.
\<close>

definition consistent :: "person list \<Rightarrow> nat list \<Rightarrow> bool" where
  "consistent pop infd \<longleftrightarrow>
     distinct infd \<and> set infd = {i. i < length pop \<and> status (pop ! i) = St_I}"

text \<open>
  What holds inside the loop of the SIR \<^verbatim>\<open>step\<close>, between two contacts, of the current
  population \<open>pop1\<close> and the list \<open>new\<close> of newly infected people, relative to the
  population \<open>pop0\<close> and the infected list \<open>infd0\<close> at the start of the step and to the
  people \<open>rec\<close> recovered so far.
\<close>

definition scan_inv :: "person list \<Rightarrow> nat list \<Rightarrow> nat list \<Rightarrow> person list \<Rightarrow> nat list \<Rightarrow> bool" where
  "scan_inv pop0 infd0 rec pop1 new \<longleftrightarrow>
     length pop1 = length pop0
     \<and> (\<forall>j < length pop0. xpos (pop1 ! j) = xpos (pop0 ! j) \<and> ypos (pop1 ! j) = ypos (pop0 ! j))
     \<and> distinct new
     \<and> set new \<inter> set infd0 = {}
     \<and> (\<forall>j \<in> set new. j < length pop0)
     \<and> (\<forall>j < length pop0. status (pop1 ! j) =
           (if j \<in> set new then St_I else if j \<in> set rec then St_R else status (pop0 ! j)))"

text \<open>
  What holds inside the loop of \<^verbatim>\<open>step\<close>, in SIR and SIS alike, of the people that
  are not in the infected list \<open>infd0\<close> of the start of the step: their positions are
  those of the start, and they are in state \<^verbatim>\<open>'I'\<close> if newly infected and in their
  state of the start otherwise.
\<close>

definition outside_inv :: "person list \<Rightarrow> nat list \<Rightarrow> person list \<Rightarrow> nat list \<Rightarrow> bool" where
  "outside_inv pop0 infd0 pop1 new \<longleftrightarrow>
     length pop1 = length pop0
     \<and> (\<forall>j < length pop0. xpos (pop1 ! j) = xpos (pop0 ! j) \<and> ypos (pop1 ! j) = ypos (pop0 ! j))
     \<and> (\<forall>j < length pop0. j \<notin> set infd0 \<longrightarrow>
           status (pop1 ! j) = (if j \<in> set new then St_I else status (pop0 ! j)))"

definition grid_valid :: "person list \<Rightarrow> grid \<Rightarrow> bool" where
  "grid_valid pop grid \<longleftrightarrow> (\<forall>cell ps. grid cell = Some ps \<longrightarrow> (\<forall>p \<in> set ps. p < length pop))"

subsection \<open>Invariants of the day loop\<close>

text \<open>
  What the loop of \<^verbatim>\<open>create_SIR_simulation\<close> keeps true of its lists: they have one
  entry per day, the entries of each day add up to the population, the day-0 entries
  are the ones written before the loop, and every day after which the loop went on
  had infected people.
\<close>

definition SIR_inv :: "config \<Rightarrow> sir_state \<Rightarrow> bool" where
  "SIR_inv c s \<longleftrightarrow>
     length (simulated_S s) = length (simulated_I s)
     \<and> length (simulated_R s) = length (simulated_I s)
     \<and> int (length (simulated_I s)) = step_count s + 1
     \<and> (\<forall>d < length (simulated_I s).
           simulated_S s ! d + simulated_I s ! d + simulated_R s ! d = number_of_people c)
     \<and> simulated_I s ! 0 = num_infected c
     \<and> simulated_S s ! 0 = number_of_people c - num_infected c
     \<and> simulated_R s ! 0 = 0
     \<and> (\<forall>d. 1 \<le> d \<and> Suc d < length (simulated_I s) \<longrightarrow> 0 < simulated_I s ! d)
     \<and> (1 < length (simulated_I s) \<longrightarrow> last (simulated_I s) = int (length (infected s)))
     \<and> 0 \<le> step_count s
     \<and> step_count s \<le> max 0 (max_days c + 1)
     \<and> int (length (frames s)) = step_count s"

definition SIS_inv :: "config \<Rightarrow> sis_state \<Rightarrow> bool" where
  "SIS_inv c s \<longleftrightarrow>
     length (sis_simulated_S s) = length (sis_simulated_I s)
     \<and> int (length (sis_simulated_I s)) = sis_step_count s + 1
     \<and> (\<forall>d < length (sis_simulated_I s).
           sis_simulated_S s ! d + sis_simulated_I s ! d = number_of_people c)
     \<and> sis_simulated_I s ! 0 = num_infected c
     \<and> sis_simulated_S s ! 0 = number_of_people c - num_infected c
     \<and> (\<forall>d. 1 \<le> d \<and> Suc d < length (sis_simulated_I s) \<longrightarrow> 0 < sis_simulated_I s ! d)
     \<and> (1 < length (sis_simulated_I s)
          \<longrightarrow> last (sis_simulated_I s) = int (length (sis_infected s)))
     \<and> 0 \<le> sis_step_count s
     \<and> sis_step_count s \<le> max 0 (max_days c + 1)
     \<and> int (length (sis_frames s)) = sis_step_count s"

section \<open>Auxiliary facts\<close>

subsection \<open>Evaluation\<close>

lemma replay_simps:
  "replay (x # xs) 0 = x" "rng_next (replay (x # xs)) = replay xs" "replay [] n = 0"
  "rng_next (replay []) = replay []"
  by (auto simp: replay_def rng_next_def fun_eq_iff)

text \<open>The distance test of \<^verbatim>\<open>step\<close>, without the square root.\<close>

lemma find_distance_lt:
  "find_distance p q < r \<longleftrightarrow>
     0 < r \<and> real_of_int ((xpos p - xpos q)\<^sup>2 + (ypos p - ypos q)\<^sup>2) < r\<^sup>2"
proof (cases "0 < r")
  case False
  have "0 \<le> find_distance p q" by (simp add: find_distance_def)
  with False show ?thesis by auto
next
  case True
  let ?d = "real_of_int ((xpos p - xpos q)\<^sup>2 + (ypos p - ypos q)\<^sup>2)"
  have "r = sqrt (r\<^sup>2)" using True by simp
  then have "sqrt ?d < r \<longleftrightarrow> ?d < r\<^sup>2"
    by (metis real_sqrt_less_iff)
  then show ?thesis using True by (simp add: find_distance_def)
qed

lemma find_distance_lt_numeral:
  "find_distance p q < numeral k \<longleftrightarrow>
     (xpos p - xpos q)\<^sup>2 + (ypos p - ypos q)\<^sup>2 < (numeral k)\<^sup>2"
proof -
  have "real_of_int ((xpos p - xpos q)\<^sup>2 + (ypos p - ypos q)\<^sup>2) < (numeral k)\<^sup>2
    \<longleftrightarrow> (xpos p - xpos q)\<^sup>2 + (ypos p - ypos q)\<^sup>2 < (numeral k)\<^sup>2"
    by (metis of_int_less_iff of_int_numeral of_int_power)
  then show ?thesis using find_distance_lt [of p q "numeral k"] by simp
qed

text \<open>For an integer cell size the cell index is the integer floor division.\<close>

lemma get_cell_numeral:
  "get_cell x y (numeral k) = Inr (x div numeral k, y div numeral k)"
proof -
  have "\<lfloor>real_of_int z / numeral k\<rfloor> = z div numeral k" for z
    using floor_divide_of_int_eq [of z "numeral k", where ?'a = real] by simp
  then show ?thesis by (simp add: get_cell_def)
qed

lemma float_limit_big: "1000000 \<le> float_limit"
  by (simp add: float_limit_def)

lemma true_divide_small:
  "b \<noteq> 0 \<Longrightarrow> \<bar>real_of_int a / real_of_int b\<bar> < 1000000
     \<Longrightarrow> true_divide a b = Inr (real_of_int a / real_of_int b)"
  using float_limit_big by (simp add: true_divide_def)

lemma to_float_small:
  "\<bar>n\<bar> < 1000000 \<Longrightarrow> to_float n = Inr (real_of_int n)"
  using float_limit_big by (auto simp: to_float_def)

lemma place_numeral:
  "place c (numeral n) pop infd g =
     (let (u, g1) = random_random g
      in case true_divide (num_infected c) (number_of_people c) of
           Inl e \<Rightarrow> Inl e
         | Inr q \<Rightarrow>
             (let s = (if u < q then St_I else St_S)
              in case randint 0 (width c) g1 of
                   Inl e \<Rightarrow> Inl e
                 | Inr (x, g2) \<Rightarrow>
                     (case randint 0 (height c) g2 of
                        Inl e \<Rightarrow> Inl e
                      | Inr (y, g3) \<Rightarrow>
                          place c (pred_numeral n) (pop @ [\<lparr>status = s, xpos = x, ypos = y\<rparr>])
                            (if s = St_I then infd @ [length pop] else infd) g3)))"
  by (simp only: numeral_eq_Suc place.simps)

lemmas run_defs = replay_simps upt_rec place_numeral create_SIR_simulation_def
  create_SIS_simulation_def SIR_run_def SIS_run_def SIR_setup_def SIS_setup_def
  SIR_finish_def SIS_finish_def set_mode_def mimsave_def odeint_def sir_model_def
  sis_model_def to_float_small true_divide_small initialise_def random_random_def
  randint_def SIR_loop.simps SIS_loop.simps SIR_day_def SIS_day_def step_def
  populate_grid_def get_cell_numeral visit_def neighbor_cells_def scan_cell_def
  contact_def find_distance_lt_numeral clamp_def linspace_def half_def

lemma run_SIR_two: "create_SIR_simulation cfg_two (replay []) = Inr res_SIR_two"
  by (simp add: run_defs cfg_two_def res_SIR_two_def)

lemma loop_SIR_two: "SIR_run cfg_two (replay []) = Inr (final res_SIR_two)"
  by (simp add: run_defs cfg_two_def res_SIR_two_def)

lemma init_two:
  "initialise cfg_two (replay []) =
     Inr ([\<lparr>status = St_I, xpos = 0, ypos = 0\<rparr>, \<lparr>status = St_I, xpos = 0, ypos = 0\<rparr>],
          [0, 1], replay [])"
  by (simp add: run_defs cfg_two_def)

lemma run_SIR_two_days: "create_SIR_simulation cfg_one rng_two_days = Inr res_SIR_two_days"
  by (simp add: run_defs cfg_one_def rng_two_days_def res_SIR_two_days_def)

lemma loop_SIR_two_days: "SIR_run cfg_one rng_two_days = Inr (final res_SIR_two_days)"
  by (simp add: run_defs cfg_one_def rng_two_days_def res_SIR_two_days_def)

lemma init_custom:
  "initialise (fixed cfg_custom) rng_custom =
     Inr ([\<lparr>status = St_I, xpos = 100, ypos = 100\<rparr>, \<lparr>status = St_S, xpos = 103, ypos = 104\<rparr>],
          [0], replay [0, half, 8, 5, 5, 5])"
  by (simp add: run_defs cfg_custom_def rng_custom_def)

lemma run_SIS_custom: "create_SIS_simulation cfg_custom rng_custom = Inr res_SIS_custom"
  by (simp add: run_defs cfg_custom_def rng_custom_def res_SIS_custom_def)

lemma loop_SIS_custom: "SIS_run cfg_custom rng_custom = Inr (sis_final res_SIS_custom)"
  by (simp add: run_defs cfg_custom_def rng_custom_def res_SIS_custom_def)

lemma loop_SIR_invalid: "SIR_run cfg_invalid (replay []) = Inr run_invalid"
  by (simp add: run_defs cfg_invalid_def run_invalid_def)

lemma run_SIR_invalid: "create_SIR_simulation cfg_invalid (replay []) = Inl ZeroDivisionError"
  by (simp add: run_defs cfg_invalid_def)

lemma run_SIR_rates: "create_SIR_simulation cfg_rates (replay []) = Inr res_SIR_rates"
  by (simp add: run_defs cfg_rates_def res_SIR_rates_def)

lemma init_seeded:
  "initialise (fixed cfg_custom) (replay []) =
     Inr ([\<lparr>status = St_I, xpos = 0, ypos = 0\<rparr>, \<lparr>status = St_I, xpos = 0, ypos = 0\<rparr>],
          [0, 1], replay [])"
  by (simp add: run_defs cfg_custom_def)

lemma run_SIS_seeded: "create_SIS_simulation cfg_custom (replay []) = Inr res_SIS_seeded"
  by (simp add: run_defs cfg_custom_def res_SIS_seeded_def)

subsection \<open>The day loop\<close>

lemma SIR_day_fields:
  assumes "SIR_day c s = Inr s'"
  shows "\<exists>n. step_count s' = step_count s + 1
     \<and> frames s' = frames s @ [people s']
     \<and> simulated_R s' = simulated_R s @ [last (simulated_R s) + int n]
     \<and> simulated_I s' = simulated_I s @ [int (length (infected s'))]
     \<and> simulated_S s' = simulated_S s @
          [number_of_people c - int (length (infected s')) - (last (simulated_R s) + int n)]"
  using assms
  by (auto simp: SIR_day_def Let_def split: sum.splits prod.splits if_splits)

lemma SIR_day_inv:
  assumes day: "SIR_day c s = Inr s'"
    and inv: "SIR_inv c s"
    and cond: "0 < length (infected s) \<and> step_count s \<le> max_days c"
  shows "SIR_inv c s'"
proof -
  from SIR_day_fields [OF day] obtain n where
    sc: "step_count s' = step_count s + 1"
    and F: "frames s' = frames s @ [people s']"
    and R: "simulated_R s' = simulated_R s @ [last (simulated_R s) + int n]"
    and I: "simulated_I s' = simulated_I s @ [int (length (infected s'))]"
    and S: "simulated_S s' = simulated_S s @
          [number_of_people c - int (length (infected s')) - (last (simulated_R s) + int n)]"
    by blast
  from inv have len: "length (simulated_S s) = length (simulated_I s)"
      "length (simulated_R s) = length (simulated_I s)"
      "int (length (simulated_I s)) = step_count s + 1"
    and sum: "\<And>d. d < length (simulated_I s) \<Longrightarrow>
           simulated_S s ! d + simulated_I s ! d + simulated_R s ! d = number_of_people c"
    and day0: "simulated_I s ! 0 = num_infected c"
      "simulated_S s ! 0 = number_of_people c - num_infected c" "simulated_R s ! 0 = 0"
    and live: "\<And>d. 1 \<le> d \<Longrightarrow> Suc d < length (simulated_I s) \<Longrightarrow> 0 < simulated_I s ! d"
    and lst: "1 < length (simulated_I s) \<Longrightarrow> last (simulated_I s) = int (length (infected s))"
    and nonneg: "0 \<le> step_count s"
    and fr: "int (length (frames s)) = step_count s"
    by (auto simp: SIR_inv_def)
  from len nonneg have pos: "0 < length (simulated_I s)" by auto
  have 1: "length (simulated_S s') = length (simulated_I s')"
      "length (simulated_R s') = length (simulated_I s')"
      "int (length (simulated_I s')) = step_count s' + 1"
    using len by (simp_all add: S I R sc)
  have 2: "simulated_S s' ! d + simulated_I s' ! d + simulated_R s' ! d = number_of_people c"
    if "d < length (simulated_I s')" for d
  proof (cases "d < length (simulated_I s)")
    case True
    then show ?thesis using sum [OF True] len by (simp add: S I R nth_append)
  next
    case False
    with that have "d = length (simulated_I s)" by (simp add: I)
    then show ?thesis using len by (simp add: S I R nth_append)
  qed
  have 3: "simulated_I s' ! 0 = num_infected c"
      "simulated_S s' ! 0 = number_of_people c - num_infected c" "simulated_R s' ! 0 = 0"
    using day0 pos len by (simp_all add: S I R nth_append)
  have 4: "0 < simulated_I s' ! d" if "1 \<le> d" "Suc d < length (simulated_I s')" for d
  proof (cases "Suc d < length (simulated_I s)")
    case True
    then show ?thesis using live [OF that(1) True] by (simp add: I nth_append)
  next
    case False
    with that have d: "Suc d = length (simulated_I s)" by (simp add: I)
    with that have "1 < length (simulated_I s)" by simp
    from lst [OF this] have "last (simulated_I s) = int (length (infected s))" .
    moreover have "last (simulated_I s) = simulated_I s ! d"
      using d pos by (metis diff_Suc_1 last_conv_nth length_greater_0_conv)
    ultimately show ?thesis using cond d by (simp add: I nth_append)
  qed
  have 5: "last (simulated_I s') = int (length (infected s'))"
    by (simp add: I)
  have 6: "0 \<le> step_count s'" "step_count s' \<le> max 0 (max_days c + 1)"
    using cond nonneg by (simp_all add: sc)
  have 7: "int (length (frames s')) = step_count s'"
    using fr by (simp add: F sc)
  show ?thesis
    unfolding SIR_inv_def using 1 2 3 4 5 6 7 by blast
qed

lemma SIR_loop_stop:
  "\<not> (0 < length (infected s) \<and> step_count s \<le> max_days c) \<Longrightarrow> SIR_loop c s = Inr s"
  by (subst SIR_loop.simps) auto

lemma SIR_loop_go:
  "0 < length (infected s) \<and> step_count s \<le> max_days c \<Longrightarrow>
     SIR_loop c s = (case SIR_day c s of Inl e \<Rightarrow> Inl e | Inr s1 \<Rightarrow> SIR_loop c s1)"
  by (subst SIR_loop.simps) simp

lemma SIR_loop_cases:
  assumes "SIR_loop c s = Inr s'"
  obtains (stop) "\<not> (0 < length (infected s) \<and> step_count s \<le> max_days c)" "s' = s"
    | (go) s1 where "0 < length (infected s) \<and> step_count s \<le> max_days c"
        "SIR_day c s = Inr s1" "SIR_loop c s1 = Inr s'"
proof (cases "0 < length (infected s) \<and> step_count s \<le> max_days c")
  case False
  with assms SIR_loop_stop [OF False] have "s' = s" by simp
  with False show ?thesis by (rule stop)
next
  case True
  show ?thesis
  proof (cases "SIR_day c s")
    case (Inl e)
    with assms SIR_loop_go [OF True] show ?thesis by simp
  next
    case (Inr s1)
    with assms SIR_loop_go [OF True] have "SIR_loop c s1 = Inr s'" by simp
    with True Inr show ?thesis by (rule go)
  qed
qed

lemma SIR_loop_inv:
  "SIR_loop c s = Inr s' \<Longrightarrow> SIR_inv c s \<Longrightarrow> SIR_inv c s'"
proof (induction c s rule: SIR_loop.induct)
  case (1 c s)
  from "1.prems"(1) show ?case
  proof (cases rule: SIR_loop_cases)
    case stop
    with "1.prems"(2) show ?thesis by simp
  next
    case (go s1)
    from SIR_day_inv [OF go(2) "1.prems"(2) go(1)] have "SIR_inv c s1" .
    with "1.IH" [OF go(1) go(2) go(3)] show ?thesis .
  qed
qed

lemma SIR_loop_exit:
  "SIR_loop c s = Inr s' \<Longrightarrow> infected s' = [] \<or> max_days c < step_count s'"
proof (induction c s rule: SIR_loop.induct)
  case (1 c s)
  from "1.prems" show ?case
  proof (cases rule: SIR_loop_cases)
    case stop
    then show ?thesis by auto
  next
    case (go s1)
    from "1.IH" [OF go(1) go(2) go(3)] show ?thesis .
  qed
qed

lemma SIR_inv_start:
  "SIR_inv c \<lparr>people = pop, infected = infd, frames = [], step_count = 0,
              simulated_S = [number_of_people c - num_infected c],
              simulated_I = [num_infected c], simulated_R = [0], gen = g\<rparr>"
  by (simp add: SIR_inv_def)

lemma SIR_run_cases:
  assumes "SIR_run c g = Inr s"
  obtains pop infd g1 where "initialise c g = Inr (pop, infd, g1)"
    "0 \<le> width c" "0 \<le> height c"
    "SIR_setup c g = Inr \<lparr>people = pop, infected = infd, frames = [], step_count = 0,
                simulated_S = [number_of_people c - num_infected c],
                simulated_I = [num_infected c], simulated_R = [0], gen = g1\<rparr>"
    "SIR_loop c \<lparr>people = pop, infected = infd, frames = [], step_count = 0,
                simulated_S = [number_of_people c - num_infected c],
                simulated_I = [num_infected c], simulated_R = [0], gen = g1\<rparr> = Inr s"
  using assms
  by (auto simp: SIR_run_def SIR_setup_def set_mode_def split: sum.splits prod.splits if_splits)

lemma SIR_run_inv:
  assumes "SIR_run c g = Inr s"
  shows "SIR_inv c s"
    and "infected s = [] \<or> max_days c < step_count s"
proof -
  from assms obtain pop infd g1 where
    loop: "SIR_loop c \<lparr>people = pop, infected = infd, frames = [], step_count = 0,
                simulated_S = [number_of_people c - num_infected c],
                simulated_I = [num_infected c], simulated_R = [0], gen = g1\<rparr> = Inr s"
    by (rule SIR_run_cases)
  from SIR_loop_inv [OF loop SIR_inv_start] show "SIR_inv c s" .
  from SIR_loop_exit [OF loop]
  show "infected s = [] \<or> max_days c < step_count s" .
qed

text \<open>A completed run has completed its day loop, and has written at least one frame.\<close>

lemma create_SIR_run:
  assumes "create_SIR_simulation c g = Inr r"
  shows "SIR_run c g = Inr (final r)" and "frames (final r) \<noteq> []"
  using assms
  by (auto simp: create_SIR_simulation_def SIR_finish_def mimsave_def
      split: sum.splits if_splits)

lemma SIS_day_fields:
  assumes "SIS_day c s = Inr s'"
  shows "sis_step_count s' = sis_step_count s + 1
     \<and> sis_frames s' = sis_frames s @ [sis_people s']
     \<and> sis_simulated_I s' = sis_simulated_I s @ [int (length (sis_infected s'))]
     \<and> sis_simulated_S s' = sis_simulated_S s @
          [number_of_people c - int (length (sis_infected s'))]"
  using assms
  by (auto simp: SIS_day_def Let_def split: sum.splits prod.splits)

lemma SIS_day_inv:
  assumes day: "SIS_day c s = Inr s'"
    and inv: "SIS_inv c s"
    and cond: "0 < length (sis_infected s) \<and> sis_step_count s \<le> max_days c"
  shows "SIS_inv c s'"
proof -
  from SIS_day_fields [OF day] have
    sc: "sis_step_count s' = sis_step_count s + 1"
    and F: "sis_frames s' = sis_frames s @ [sis_people s']"
    and I: "sis_simulated_I s' = sis_simulated_I s @ [int (length (sis_infected s'))]"
    and S: "sis_simulated_S s' = sis_simulated_S s @
          [number_of_people c - int (length (sis_infected s'))]"
    by blast+
  from inv have len: "length (sis_simulated_S s) = length (sis_simulated_I s)"
      "int (length (sis_simulated_I s)) = sis_step_count s + 1"
    and sum: "\<And>d. d < length (sis_simulated_I s) \<Longrightarrow>
           sis_simulated_S s ! d + sis_simulated_I s ! d = number_of_people c"
    and day0: "sis_simulated_I s ! 0 = num_infected c"
      "sis_simulated_S s ! 0 = number_of_people c - num_infected c"
    and live: "\<And>d. 1 \<le> d \<Longrightarrow> Suc d < length (sis_simulated_I s)
           \<Longrightarrow> 0 < sis_simulated_I s ! d"
    and lst: "1 < length (sis_simulated_I s)
           \<Longrightarrow> last (sis_simulated_I s) = int (length (sis_infected s))"
    and nonneg: "0 \<le> sis_step_count s"
    and fr: "int (length (sis_frames s)) = sis_step_count s"
    by (auto simp: SIS_inv_def)
  from len nonneg have pos: "0 < length (sis_simulated_I s)" by auto
  have 1: "length (sis_simulated_S s') = length (sis_simulated_I s')"
      "int (length (sis_simulated_I s')) = sis_step_count s' + 1"
    using len by (simp_all add: S I sc)
  have 2: "sis_simulated_S s' ! d + sis_simulated_I s' ! d = number_of_people c"
    if "d < length (sis_simulated_I s')" for d
  proof (cases "d < length (sis_simulated_I s)")
    case True
    then show ?thesis using sum [OF True] len by (simp add: S I nth_append)
  next
    case False
    with that have "d = length (sis_simulated_I s)" by (simp add: I)
    then show ?thesis using len by (simp add: S I nth_append)
  qed
  have 3: "sis_simulated_I s' ! 0 = num_infected c"
      "sis_simulated_S s' ! 0 = number_of_people c - num_infected c"
    using day0 pos len by (simp_all add: S I nth_append)
  have 4: "0 < sis_simulated_I s' ! d"
    if "1 \<le> d" "Suc d < length (sis_simulated_I s')" for d
  proof (cases "Suc d < length (sis_simulated_I s)")
    case True
    then show ?thesis using live [OF that(1) True] by (simp add: I nth_append)
  next
    case False
    with that have d: "Suc d = length (sis_simulated_I s)" by (simp add: I)
    with that have "1 < length (sis_simulated_I s)" by simp
    from lst [OF this] have "last (sis_simulated_I s) = int (length (sis_infected s))" .
    moreover have "last (sis_simulated_I s) = sis_simulated_I s ! d"
      using d pos by (metis diff_Suc_1 last_conv_nth length_greater_0_conv)
    ultimately show ?thesis using cond d by (simp add: I nth_append)
  qed
  have 5: "last (sis_simulated_I s') = int (length (sis_infected s'))"
    by (simp add: I)
  have 6: "0 \<le> sis_step_count s'" "sis_step_count s' \<le> max 0 (max_days c + 1)"
    using cond nonneg by (simp_all add: sc)
  have 7: "int (length (sis_frames s')) = sis_step_count s'"
    using fr by (simp add: F sc)
  show ?thesis
    unfolding SIS_inv_def using 1 2 3 4 5 6 7 by blast
qed

lemma SIS_loop_stop:
  "\<not> (0 < length (sis_infected s) \<and> sis_step_count s \<le> max_days c) \<Longrightarrow> SIS_loop c s = Inr s"
  by (subst SIS_loop.simps) auto

lemma SIS_loop_go:
  "0 < length (sis_infected s) \<and> sis_step_count s \<le> max_days c \<Longrightarrow>
     SIS_loop c s = (case SIS_day c s of Inl e \<Rightarrow> Inl e | Inr s1 \<Rightarrow> SIS_loop c s1)"
  by (subst SIS_loop.simps) simp

lemma SIS_loop_cases:
  assumes "SIS_loop c s = Inr s'"
  obtains (stop) "\<not> (0 < length (sis_infected s) \<and> sis_step_count s \<le> max_days c)" "s' = s"
    | (go) s1 where "0 < length (sis_infected s) \<and> sis_step_count s \<le> max_days c"
        "SIS_day c s = Inr s1" "SIS_loop c s1 = Inr s'"
proof (cases "0 < length (sis_infected s) \<and> sis_step_count s \<le> max_days c")
  case False
  with assms SIS_loop_stop [OF False] have "s' = s" by simp
  with False show ?thesis by (rule stop)
next
  case True
  show ?thesis
  proof (cases "SIS_day c s")
    case (Inl e)
    with assms SIS_loop_go [OF True] show ?thesis by simp
  next
    case (Inr s1)
    with assms SIS_loop_go [OF True] have "SIS_loop c s1 = Inr s'" by simp
    with True Inr show ?thesis by (rule go)
  qed
qed

lemma SIS_loop_inv:
  "SIS_loop c s = Inr s' \<Longrightarrow> SIS_inv c s \<Longrightarrow> SIS_inv c s'"
proof (induction c s rule: SIS_loop.induct)
  case (1 c s)
  from "1.prems"(1) show ?case
  proof (cases rule: SIS_loop_cases)
    case stop
    with "1.prems"(2) show ?thesis by simp
  next
    case (go s1)
    from SIS_day_inv [OF go(2) "1.prems"(2) go(1)] have "SIS_inv c s1" .
    with "1.IH" [OF go(1) go(2) go(3)] show ?thesis .
  qed
qed

lemma SIS_loop_exit:
  "SIS_loop c s = Inr s' \<Longrightarrow> sis_infected s' = [] \<or> max_days c < sis_step_count s'"
proof (induction c s rule: SIS_loop.induct)
  case (1 c s)
  from "1.prems" show ?case
  proof (cases rule: SIS_loop_cases)
    case stop
    then show ?thesis by auto
  next
    case (go s1)
    from "1.IH" [OF go(1) go(2) go(3)] show ?thesis .
  qed
qed

lemma SIS_inv_start:
  "SIS_inv c \<lparr>sis_people = pop, sis_infected = infd, sis_frames = [], sis_step_count = 0,
              sis_simulated_S = [number_of_people c - num_infected c],
              sis_simulated_I = [num_infected c], sis_gen = g\<rparr>"
  by (simp add: SIS_inv_def)

lemma SIS_run_cases:
  assumes "SIS_run c g = Inr s"
  obtains pop infd g1 where "initialise (fixed c) g = Inr (pop, infd, g1)"
    "0 \<le> width c" "0 \<le> height c"
    "SIS_setup (fixed c) g =
       Inr \<lparr>sis_people = pop, sis_infected = infd, sis_frames = [], sis_step_count = 0,
            sis_simulated_S = [number_of_people c - num_infected c],
            sis_simulated_I = [num_infected c], sis_gen = g1\<rparr>"
    "SIS_loop (fixed c) \<lparr>sis_people = pop, sis_infected = infd, sis_frames = [],
                sis_step_count = 0,
                sis_simulated_S = [number_of_people c - num_infected c],
                sis_simulated_I = [num_infected c], sis_gen = g1\<rparr> = Inr s"
  using assms
  by (auto simp: SIS_run_def SIS_setup_def set_mode_def Let_def
      split: sum.splits prod.splits if_splits)

lemma SIS_run_inv:
  assumes "SIS_run c g = Inr s"
  shows "SIS_inv (fixed c) s"
    and "sis_infected s = [] \<or> max_days c < sis_step_count s"
proof -
  from assms obtain pop infd g1 where
    loop: "SIS_loop (fixed c) \<lparr>sis_people = pop, sis_infected = infd, sis_frames = [],
                sis_step_count = 0,
                sis_simulated_S = [number_of_people c - num_infected c],
                sis_simulated_I = [num_infected c], sis_gen = g1\<rparr> = Inr s"
    by (rule SIS_run_cases)
  have "SIS_inv (fixed c) \<lparr>sis_people = pop, sis_infected = infd, sis_frames = [],
                sis_step_count = 0,
                sis_simulated_S = [number_of_people c - num_infected c],
                sis_simulated_I = [num_infected c], sis_gen = g1\<rparr>"
    using SIS_inv_start [of "fixed c" pop infd g1] by simp
  from SIS_loop_inv [OF loop this] show "SIS_inv (fixed c) s" .
  from SIS_loop_exit [OF loop]
  show "sis_infected s = [] \<or> max_days c < sis_step_count s" by simp
qed

lemma create_SIS_run:
  assumes "create_SIS_simulation c g = Inr r"
  shows "SIS_run c g = Inr (sis_final r)" and "sis_frames (sis_final r) \<noteq> []"
  using assms
  by (auto simp: create_SIS_simulation_def SIS_finish_def mimsave_def Let_def
      split: sum.splits if_splits)

subsection \<open>Initial placement\<close>

text \<open>
  The \<open>k\<close>-th person reads the draws \<open>3k\<close>, \<open>3k + 1\<close> and \<open>3k + 2\<close>; its state depends
  on the first of them alone, and \<^verbatim>\<open>infected\<close> lists the people placed in state
  \<^verbatim>\<open>'I'\<close>, in order.
\<close>

lemma place_spec:
  assumes "place c n pop infd g = Inr (pop', infd', g')"
  shows "length pop' = length pop + n
     \<and> (\<forall>j < length pop. pop' ! j = pop ! j)
     \<and> (\<forall>k < n. status (pop' ! (length pop + k)) =
           (if fst (random_random (\<lambda>m. g (m + 3 * k)))
                 < real_of_int (num_infected c) / real_of_int (number_of_people c)
            then St_I else St_S))
     \<and> infd' = infd @ filter (\<lambda>j. status (pop' ! j) = St_I) [length pop ..< length pop + n]"
  using assms
proof (induction n arbitrary: pop infd g)
  case 0
  then show ?case by simp
next
  case (Suc n)
  let ?s = "if fst (random_random g)
                 < real_of_int (num_infected c) / real_of_int (number_of_people c)
            then St_I else St_S"
  from Suc.prems obtain x y where
    rec: "place c n (pop @ [\<lparr>status = ?s, xpos = x, ypos = y\<rparr>])
            (if ?s = St_I then infd @ [length pop] else infd)
            (rng_next (rng_next (rng_next g))) = Inr (pop', infd', g')"
    by (auto simp: random_random_def randint_def true_divide_def Let_def
        split: sum.splits prod.splits if_splits)
  let ?pop1 = "pop @ [\<lparr>status = ?s, xpos = x, ypos = y\<rparr>]"
  from Suc.IH [OF rec] have
    len: "length pop' = length ?pop1 + n"
    and pre: "\<forall>j < length ?pop1. pop' ! j = ?pop1 ! j"
    and st: "\<forall>k < n. status (pop' ! (length ?pop1 + k)) =
           (if fst (random_random (\<lambda>m. rng_next (rng_next (rng_next g)) (m + 3 * k)))
                 < real_of_int (num_infected c) / real_of_int (number_of_people c)
            then St_I else St_S)"
    and inf: "infd' = (if ?s = St_I then infd @ [length pop] else infd)
          @ filter (\<lambda>j. status (pop' ! j) = St_I) [length ?pop1 ..< length ?pop1 + n]"
    by blast+
  have shift: "(\<lambda>m. rng_next (rng_next (rng_next g)) (m + 3 * k)) = (\<lambda>m. g (m + 3 * Suc k))"
    for k
  proof -
    have "Suc (Suc (Suc (m + 3 * k))) = m + 3 * Suc k" for m by simp
    then show ?thesis by (simp only: rng_next_def)
  qed
  have here: "pop' ! length pop = \<lparr>status = ?s, xpos = x, ypos = y\<rparr>"
    using pre by (simp add: nth_append)
  have 1: "length pop' = length pop + Suc n"
    using len by simp
  have 2: "\<forall>j < length pop. pop' ! j = pop ! j"
    using pre by (simp add: nth_append)
  have 3: "status (pop' ! (length pop + k)) =
           (if fst (random_random (\<lambda>m. g (m + 3 * k)))
                 < real_of_int (num_infected c) / real_of_int (number_of_people c)
            then St_I else St_S)" if "k < Suc n" for k
  proof (cases k)
    case 0
    then show ?thesis using here by (simp add: random_random_def)
  next
    case (Suc k')
    with that have "k' < n" by simp
    with st have "status (pop' ! (length ?pop1 + k')) =
           (if fst (random_random (\<lambda>m. g (m + 3 * Suc k')))
                 < real_of_int (num_infected c) / real_of_int (number_of_people c)
            then St_I else St_S)"
      by (simp only: shift) 
    then show ?thesis using Suc by simp
  qed
  have upt: "[length pop ..< length pop + Suc n]
      = length pop # [length ?pop1 ..< length ?pop1 + n]"
    by (simp add: upt_conv_Cons)
  have 4: "infd' = infd @ filter (\<lambda>j. status (pop' ! j) = St_I) [length pop ..< length pop + Suc n]"
    unfolding upt using inf here by simp
  from 1 2 3 4 show ?case by blast
qed

lemma initialise_spec:
  assumes "initialise c g = Inr (pop, infd, g')"
  shows "length pop = nat (number_of_people c)"
    and "infd = filter (\<lambda>k. status (pop ! k) = St_I) [0..<length pop]"
    and "\<forall>k < length pop. status (pop ! k) =
           (if fst (random_random (\<lambda>m. g (m + 3 * k)))
                 < real_of_int (num_infected c) / real_of_int (number_of_people c)
            then St_I else St_S)"
  using place_spec [OF assms [unfolded initialise_def] ] by simp_all

subsection \<open>The spatial grid\<close>

lemma populate_grid_loop_spec:
  assumes "cell_size \<noteq> 0"
  shows "populate_grid_loop pop cell_size ps grid =
     Inr (\<lambda>cell. if filter (\<lambda>p. cell_of pop cell_size p = cell) ps = [] then grid cell
                 else Some ((case grid cell of None \<Rightarrow> [] | Some l \<Rightarrow> l)
                            @ filter (\<lambda>p. cell_of pop cell_size p = cell) ps))"
proof (induction ps arbitrary: grid)
  case Nil
  show ?case by simp
next
  case (Cons p ps)
  show ?case
    using assms
    by (simp add: get_cell_def Cons.IH cell_of_def fun_eq_iff)
qed

lemma populate_grid_spec:
  assumes "cell_size \<noteq> 0"
  shows "populate_grid pop cell_size =
     Inr (\<lambda>cell. if filter (\<lambda>p. cell_of pop cell_size p = cell) [0..<length pop] = [] then None
                 else Some (filter (\<lambda>p. cell_of pop cell_size p = cell) [0..<length pop]))"
  by (simp add: populate_grid_def populate_grid_loop_spec [OF assms] cong: if_cong)

text \<open>
  Coordinates less than the cell size \<open>d\<close> apart fall into the same or into adjacent
  cells.
\<close>

lemma floor_div_near:
  fixes a b d :: real
  assumes "0 < d" "\<bar>a - b\<bar> < d"
  shows "\<bar>\<lfloor>b / d\<rfloor> - \<lfloor>a / d\<rfloor>\<bar> \<le> 1"
proof -
  have "b \<le> a + d" "a - d \<le> b" using assms by auto
  then have "b / d \<le> (a + d) / d" "(a - d) / d \<le> b / d"
    using assms(1) by (simp_all add: divide_right_mono)
  moreover have "(a + d) / d = a / d + 1" "(a - d) / d = a / d - 1"
    using assms(1) by (simp_all add: add_divide_distrib diff_divide_distrib)
  ultimately have le: "b / d \<le> a / d + 1" "a / d - 1 \<le> b / d"
    by simp_all
  from floor_mono [OF le(1)] floor_mono [OF le(2)]
  have "\<lfloor>b / d\<rfloor> \<le> \<lfloor>a / d\<rfloor> + 1" "\<lfloor>a / d\<rfloor> - 1 \<le> \<lfloor>b / d\<rfloor>"
    by simp_all
  then show ?thesis by linarith
qed

lemma square_less_abs:
  fixes u v r :: real
  assumes "0 < r" "u\<^sup>2 + v\<^sup>2 < r\<^sup>2"
  shows "\<bar>u\<bar> < r"
proof (rule ccontr)
  assume "\<not> \<bar>u\<bar> < r"
  with assms(1) have "\<bar>r\<bar> \<le> \<bar>u\<bar>" by simp
  then have "r\<^sup>2 \<le> u\<^sup>2" by (simp only: abs_le_square_iff)
  moreover have "0 \<le> v\<^sup>2" by simp
  ultimately show False using assms(2) by linarith
qed

lemma neighbor_cells_iff:
  "nc \<in> set (neighbor_cells cell) \<longleftrightarrow>
     (fst nc = fst cell - 1 \<or> fst nc = fst cell \<or> fst nc = fst cell + 1)
     \<and> (snd nc = snd cell - 1 \<or> snd nc = snd cell \<or> snd nc = snd cell + 1)"
  by (cases nc) (auto simp: neighbor_cells_def)

subsection \<open>Placement and movement\<close>

lemma place_ok:
  assumes "0 \<le> width c" "0 \<le> height c"
    and "true_divide (num_infected c) (number_of_people c) = Inr q"
  shows "\<exists>pop' infd' g'. place c n pop infd g = Inr (pop', infd', g')"
proof (induction n arbitrary: pop infd g)
  case 0
  show ?case by simp
next
  case (Suc n)
  show ?case
    using assms Suc.IH
    by (simp add: random_random_def randint_def Let_def)
qed

text \<open>With a negative dimension the first person already fails: in the division, or
  else in \<^verbatim>\<open>random.randint\<close>.\<close>

lemma place_negative:
  assumes "width c < 0 \<or> height c < 0" and "number_of_people c \<noteq> 0"
  shows "place c (Suc n) pop infd g =
     Inl (if float_limit \<le> \<bar>real_of_int (num_infected c) / real_of_int (number_of_people c)\<bar>
          then OverflowError else ValueError)"
  using assms
  by (auto simp: random_random_def randint_def true_divide_def Let_def)

lemma initialise_negative:
  assumes "0 < number_of_people c" "width c < 0 \<or> height c < 0"
  shows "initialise c g =
     Inl (if float_limit \<le> \<bar>real_of_int (num_infected c) / real_of_int (number_of_people c)\<bar>
          then OverflowError else ValueError)"
proof -
  from assms(1) obtain n where "nat (number_of_people c) = Suc n"
    by (metis Suc_pred zero_less_nat_eq)
  moreover from assms(1) have "number_of_people c \<noteq> 0" by simp
  ultimately show ?thesis
    using place_negative [OF assms(2)] by (simp add: initialise_def)
qed

lemma initialise_ok:
  assumes "0 \<le> width c" "0 \<le> height c"
    and "0 < number_of_people c \<longrightarrow>
           \<bar>real_of_int (num_infected c) / real_of_int (number_of_people c)\<bar> < float_limit"
  shows "\<exists>pop infd g'. initialise c g = Inr (pop, infd, g')"
proof (cases "0 < number_of_people c")
  case True
  with assms(3) have "true_divide (num_infected c) (number_of_people c)
      = Inr (real_of_int (num_infected c) / real_of_int (number_of_people c))"
    by (simp add: true_divide_def)
  from place_ok [OF assms(1,2) this] show ?thesis by (simp add: initialise_def)
next
  case False
  then show ?thesis by (simp add: initialise_def)
qed

text \<open>Placement does not read the options that the SIS variant overwrites.\<close>

lemma initialise_fixed: "initialise (fixed c) g = initialise c g"
proof -
  have "place (fixed c) n pop infd h = place c n pop infd h" for n pop infd h
    by (induction n arbitrary: pop infd h)
      (simp_all add: Let_def split: sum.splits prod.splits)
  then show ?thesis by (simp add: initialise_def)
qed

lemma clamp_range:
  assumes "2 \<le> bound"
  shows "1 \<le> clamp bound v \<and> clamp bound v \<le> bound - 1"
  using assms by (simp add: clamp_def Let_def)

text \<open>After a movement step every coordinate is in \<open>[1, dimension - 1]\<close>.\<close>

lemma move_all_range:
  assumes "move_all c pop g = Inr (pop', g')" "2 \<le> width c" "2 \<le> height c"
  shows "list_all (\<lambda>p. 1 \<le> xpos p \<and> xpos p \<le> width c - 1
                      \<and> 1 \<le> ypos p \<and> ypos p \<le> height c - 1) pop'"
  using assms
proof (induction pop arbitrary: pop' g)
  case Nil
  then show ?case by simp
next
  case (Cons p ps)
  from Cons.prems(1) obtain d1 d2 g2 ps' where
    rest: "move_all c ps g2 = Inr (ps', g')"
    and pop': "pop' = p\<lparr>xpos := clamp (width c) (xpos p + d1),
                        ypos := clamp (height c) (ypos p + d2)\<rparr> # ps'"
    by (auto split: sum.splits prod.splits)
  from Cons.IH [OF rest Cons.prems(2,3)] clamp_range [OF Cons.prems(2)]
    clamp_range [OF Cons.prems(3)]
  show ?case by (simp add: pop')
qed

subsection \<open>The SIR step keeps the infected list consistent\<close>

lemma populate_grid_loop_valid:
  assumes "populate_grid_loop pop cell_size ps grid = Inr grid'"
    and "grid_valid pop grid" and "\<forall>p \<in> set ps. p < length pop"
  shows "grid_valid pop grid'"
  using assms
proof (induction ps arbitrary: grid)
  case Nil
  then show ?case by simp
next
  case (Cons p ps)
  from Cons.prems(1) obtain cell where
    rest: "populate_grid_loop pop cell_size ps
             (grid(cell \<mapsto> (case grid cell of None \<Rightarrow> [] | Some l \<Rightarrow> l) @ [p])) = Inr grid'"
    by (auto split: sum.splits)
  have "grid_valid pop (grid(cell \<mapsto> (case grid cell of None \<Rightarrow> [] | Some l \<Rightarrow> l) @ [p]))"
    unfolding grid_valid_def
  proof (intro allI impI ballI)
    fix cell' ps' q
    assume look: "(grid(cell \<mapsto> (case grid cell of None \<Rightarrow> [] | Some l \<Rightarrow> l) @ [p])) cell' = Some ps'"
      and q: "q \<in> set ps'"
    show "q < length pop"
    proof (cases "cell' = cell")
      case False
      with look have "grid cell' = Some ps'" by simp
      with Cons.prems(2) q show ?thesis unfolding grid_valid_def by blast
    next
      case True
      with look have ps': "ps' = (case grid cell of None \<Rightarrow> [] | Some l \<Rightarrow> l) @ [p]" by simp
      show ?thesis
      proof (cases "grid cell")
        case None
        with ps' q Cons.prems(3) show ?thesis by simp
      next
        case (Some l)
        with Cons.prems(2) have "\<forall>x \<in> set l. x < length pop" unfolding grid_valid_def by blast
        with Some ps' q Cons.prems(3) show ?thesis by auto
      qed
    qed
  qed
  from Cons.IH [OF rest this] Cons.prems(3) show ?case by simp
qed

lemma populate_grid_valid:
  assumes "populate_grid pop cell_size = Inr grid"
  shows "grid_valid pop grid"
  using populate_grid_loop_valid [OF assms [unfolded populate_grid_def] ]
  by (simp add: grid_valid_def)

lemma contact_inv:
  assumes inv: "scan_inv pop0 infd0 rec pop1 new"
    and cons: "consistent pop0 infd0"
    and p: "p < length pop0"
    and res: "contact c i p (pop1, new, g) = (pop2, new2, g2)"
  shows "scan_inv pop0 infd0 rec pop2 new2"
proof (cases "pop2 = pop1 \<and> new2 = new")
  case True
  with inv show ?thesis by simp
next
  case False
  with res have S: "status (pop1 ! p) = St_S"
    and pop2: "pop2 = pop1[p := (pop1 ! p)\<lparr>status := St_I\<rparr>]"
    and new2: "new2 = new @ [p]"
    by (auto simp: contact_def Let_def split: if_splits prod.splits)
  from inv have len: "length pop1 = length pop0"
    and pos: "\<forall>j < length pop0. xpos (pop1 ! j) = xpos (pop0 ! j) \<and> ypos (pop1 ! j) = ypos (pop0 ! j)"
    and dist: "distinct new" and disj: "set new \<inter> set infd0 = {}"
    and bound: "\<forall>j \<in> set new. j < length pop0"
    and st: "\<forall>j < length pop0. status (pop1 ! j) =
           (if j \<in> set new then St_I else if j \<in> set rec then St_R else status (pop0 ! j))"
    by (simp_all add: scan_inv_def)
  from st p S have pn: "p \<notin> set new" and p0: "status (pop0 ! p) = St_S"
    by (auto split: if_splits)
  from p0 cons have pi: "p \<notin> set infd0" by (auto simp: consistent_def)
  have 1: "length pop2 = length pop0" using len by (simp add: pop2)
  have 2: "\<forall>j < length pop0. xpos (pop2 ! j) = xpos (pop0 ! j) \<and> ypos (pop2 ! j) = ypos (pop0 ! j)"
    using pos len p by (auto simp: pop2 nth_list_update)
  have 3: "distinct new2" using dist pn by (simp add: new2)
  have 4: "set new2 \<inter> set infd0 = {}" using disj pi by (simp add: new2)
  have 5: "\<forall>j \<in> set new2. j < length pop0" using bound p by (simp add: new2)
  have 6: "\<forall>j < length pop0. status (pop2 ! j) =
           (if j \<in> set new2 then St_I else if j \<in> set rec then St_R else status (pop0 ! j))"
    using st len p by (auto simp: pop2 new2 nth_list_update)
  from 1 2 3 4 5 6 show ?thesis by (simp add: scan_inv_def)
qed

lemma fold_contact_inv:
  assumes "scan_inv pop0 infd0 rec pop1 new" and "consistent pop0 infd0"
    and "\<forall>p \<in> set ps. p < length pop0"
    and "fold (contact c i) ps (pop1, new, g) = (pop2, new2, g2)"
  shows "scan_inv pop0 infd0 rec pop2 new2"
  using assms
proof (induction ps arbitrary: pop1 new g)
  case Nil
  then show ?case by simp
next
  case (Cons p ps)
  obtain pop1' new' g' where c: "contact c i p (pop1, new, g) = (pop1', new', g')"
    by (metis prod_cases3)
  from Cons.prems(3) have p: "p < length pop0" by simp
  from contact_inv [OF Cons.prems(1) Cons.prems(2) p c]
  have "scan_inv pop0 infd0 rec pop1' new'" .
  moreover from Cons.prems(4) c have "fold (contact c i) ps (pop1', new', g') = (pop2, new2, g2)"
    by simp
  ultimately show ?case using Cons.IH Cons.prems(2,3) by simp
qed

lemma scan_cell_inv:
  assumes "scan_inv pop0 infd0 rec pop1 new" and "consistent pop0 infd0"
    and "grid_valid pop0 grid"
    and "scan_cell c grid i nc (pop1, new, g) = (pop2, new2, g2)"
  shows "scan_inv pop0 infd0 rec pop2 new2"
proof (cases "grid nc")
  case None
  with assms(1,4) show ?thesis by (simp add: scan_cell_def)
next
  case (Some ps)
  with assms(3) have "\<forall>p \<in> set ps. p < length pop0" unfolding grid_valid_def by blast
  moreover from Some assms(4) have "fold (contact c i) ps (pop1, new, g) = (pop2, new2, g2)"
    by (simp add: scan_cell_def)
  ultimately show ?thesis using fold_contact_inv assms(1,2) by blast
qed

lemma fold_scan_cell_inv:
  assumes "scan_inv pop0 infd0 rec pop1 new" and "consistent pop0 infd0"
    and "grid_valid pop0 grid"
    and "fold (scan_cell c grid i) cells (pop1, new, g) = (pop2, new2, g2)"
  shows "scan_inv pop0 infd0 rec pop2 new2"
  using assms
proof (induction cells arbitrary: pop1 new g)
  case Nil
  then show ?case by simp
next
  case (Cons nc cells)
  obtain pop1' new' g' where c: "scan_cell c grid i nc (pop1, new, g) = (pop1', new', g')"
    by (metis prod_cases3)
  from scan_cell_inv [OF Cons.prems(1) Cons.prems(2) Cons.prems(3) c]
  have "scan_inv pop0 infd0 rec pop1' new'" .
  moreover from Cons.prems(4) c
  have "fold (scan_cell c grid i) cells (pop1', new', g') = (pop2, new2, g2)"
    by simp
  ultimately show ?case using Cons.IH Cons.prems(2,3) by simp
qed

lemma visit_inv:
  assumes inv: "scan_inv pop0 infd0 rec pop1 new"
    and cons: "consistent pop0 infd0" and grid: "grid_valid pop0 grid"
    and i: "i \<in> set infd0"
    and res: "visit c St_R grid cell_size i (pop1, new, rec, g) = Inr (pop2, new2, rec2, g2)"
  shows "scan_inv pop0 infd0 rec2 pop2 new2 \<and> (rec2 = rec \<or> rec2 = rec @ [i])"
proof -
  from res obtain cell where "get_cell (xpos (pop1 ! i)) (ypos (pop1 ! i)) cell_size = Inr cell"
    by (auto simp: visit_def split: sum.splits)
  moreover obtain popS newS gS where
    scan: "fold (scan_cell c grid i) (neighbor_cells cell) (pop1, new, g) = (popS, newS, gS)"
    by (metis prod_cases3)
  ultimately have out: "(pop2, new2, rec2, g2) =
      (if fst (random_random gS) < recover_rate c
       then (popS[i := (popS ! i)\<lparr>status := St_R\<rparr>], newS, rec @ [i], snd (random_random gS))
       else (popS, newS, rec, snd (random_random gS)))"
    using res by (auto simp: visit_def Let_def split: prod.splits if_splits)
  from fold_scan_cell_inv [OF inv cons grid scan]
  have invS: "scan_inv pop0 infd0 rec popS newS" .
  show ?thesis
  proof (cases "fst (random_random gS) < recover_rate c")
    case False
    with out invS show ?thesis by simp
  next
    case True
    with out have pop2: "pop2 = popS[i := (popS ! i)\<lparr>status := St_R\<rparr>]"
      and new2: "new2 = newS" and rec2: "rec2 = rec @ [i]"
      by simp_all
    from invS have len: "length popS = length pop0"
      and pos: "\<forall>j < length pop0. xpos (popS ! j) = xpos (pop0 ! j) \<and> ypos (popS ! j) = ypos (pop0 ! j)"
      and dist: "distinct newS" and disj: "set newS \<inter> set infd0 = {}"
      and bound: "\<forall>j \<in> set newS. j < length pop0"
      and st: "\<forall>j < length pop0. status (popS ! j) =
           (if j \<in> set newS then St_I else if j \<in> set rec then St_R else status (pop0 ! j))"
      by (simp_all add: scan_inv_def)
    from i disj have inew: "i \<notin> set newS" by auto
    from i cons have ilen: "i < length pop0" by (auto simp: consistent_def)
    have 1: "length pop2 = length pop0" using len by (simp add: pop2)
    have 2: "\<forall>j < length pop0. xpos (pop2 ! j) = xpos (pop0 ! j) \<and> ypos (pop2 ! j) = ypos (pop0 ! j)"
      using pos len ilen by (auto simp: pop2 nth_list_update)
    have 6: "\<forall>j < length pop0. status (pop2 ! j) =
           (if j \<in> set new2 then St_I else if j \<in> set rec2 then St_R else status (pop0 ! j))"
      using st len inew ilen by (auto simp: pop2 new2 rec2 nth_list_update)
    from 1 2 dist disj bound 6 have "scan_inv pop0 infd0 rec2 pop2 new2"
      by (simp add: scan_inv_def new2)
    with rec2 show ?thesis by simp
  qed
qed

lemma visit_all_inv:
  assumes "visit_all c St_R grid cell_size rest (pop1, new, rec, g) = Inr (pop2, new2, rec2, g2)"
    and "scan_inv pop0 infd0 rec pop1 new"
    and "consistent pop0 infd0" and "grid_valid pop0 grid"
    and "set rest \<subseteq> set infd0" and "distinct rest"
    and "set rec \<inter> set rest = {}" and "distinct rec"
  shows "scan_inv pop0 infd0 rec2 pop2 new2 \<and> distinct rec2 \<and> set rec2 \<subseteq> set rec \<union> set rest"
  using assms
proof (induction rest arbitrary: pop1 new rec g)
  case Nil
  then show ?case by simp
next
  case (Cons i rest)
  from Cons.prems(1) obtain pop1' new' rec' g' where
    v: "visit c St_R grid cell_size i (pop1, new, rec, g) = Inr (pop1', new', rec', g')"
    and va: "visit_all c St_R grid cell_size rest (pop1', new', rec', g') = Inr (pop2, new2, rec2, g2)"
    by (auto split: sum.splits)
  from Cons.prems(5) have i: "i \<in> set infd0" by simp
  from visit_inv [OF Cons.prems(2) Cons.prems(3) Cons.prems(4) i v]
  have inv': "scan_inv pop0 infd0 rec' pop1' new'" and rec': "rec' = rec \<or> rec' = rec @ [i]"
    by blast+
  from Cons.prems(5) have sub: "set rest \<subseteq> set infd0" by simp
  from Cons.prems(6) have d: "distinct rest" and ni: "i \<notin> set rest" by simp_all
  from rec' Cons.prems(7) ni have disj: "set rec' \<inter> set rest = {}" by auto
  from rec' Cons.prems(7,8) have dr: "distinct rec'" by auto
  from Cons.IH [OF va inv' Cons.prems(3) Cons.prems(4) sub d disj dr]
  have "scan_inv pop0 infd0 rec2 pop2 new2" "distinct rec2" "set rec2 \<subseteq> set rec' \<union> set rest"
    by blast+
  with rec' show ?case by auto
qed

lemma list_remove_spec:
  assumes "\<exists>j \<in> set xs. pop ! j = pop ! r"
  shows "\<exists>ys j zs. xs = ys @ j # zs \<and> pop ! j = pop ! r
     \<and> (\<forall>y \<in> set ys. pop ! y \<noteq> pop ! r) \<and> list_remove pop r xs = Inr (ys @ zs)"
  using assms
proof (induction xs)
  case Nil
  then show ?case by simp
next
  case (Cons x xs)
  show ?case
  proof (cases "pop ! x = pop ! r")
    case True
    then have "x # xs = [] @ x # xs \<and> pop ! x = pop ! r
       \<and> (\<forall>y \<in> set []. pop ! y \<noteq> pop ! r) \<and> list_remove pop r (x # xs) = Inr ([] @ xs)"
      by simp
    then show ?thesis by blast
  next
    case False
    with Cons.prems have "\<exists>j \<in> set xs. pop ! j = pop ! r" by auto
    from Cons.IH [OF this] obtain ys j zs where
      "xs = ys @ j # zs" "pop ! j = pop ! r" "\<forall>y \<in> set ys. pop ! y \<noteq> pop ! r"
      "list_remove pop r xs = Inr (ys @ zs)"
      by blast
    with False have "x # xs = (x # ys) @ j # zs \<and> pop ! j = pop ! r
       \<and> (\<forall>y \<in> set (x # ys). pop ! y \<noteq> pop ! r)
       \<and> list_remove pop r (x # xs) = Inr ((x # ys) @ zs)"
      by simp
    then show ?thesis by blast
  qed
qed

text \<open>
  When the recovered people are in state \<^verbatim>\<open>'R'\<close> and every content \<^verbatim>\<open>['R', x, y]\<close>
  occurs as often in the list as among the recovered, removing by content leaves the
  list without its people in state \<^verbatim>\<open>'R'\<close>.
\<close>

lemma remove_recovered_SIR:
  assumes "\<forall>r \<in> set rs. status (pop ! r) = St_R"
    and "\<forall>v. status v = St_R \<longrightarrow>
           length (filter (\<lambda>j. pop ! j = v) xs) = length (filter (\<lambda>j. pop ! j = v) rs)"
  shows "remove_recovered pop rs xs = Inr (filter (\<lambda>j. status (pop ! j) \<noteq> St_R) xs)"
  using assms
proof (induction rs arbitrary: xs)
  case Nil
  have "status (pop ! j) \<noteq> St_R" if "j \<in> set xs" for j
  proof
    assume "status (pop ! j) = St_R"
    with Nil.prems(2) have "length (filter (\<lambda>k. pop ! k = pop ! j) xs) = 0" by simp
    then have "filter (\<lambda>k. pop ! k = pop ! j) xs = []" by simp
    with that show False by (auto simp: filter_empty_conv)
  qed
  then have "filter (\<lambda>j. status (pop ! j) \<noteq> St_R) xs = xs" by simp
  then show ?case by simp
next
  case (Cons r rs)
  from Cons.prems(1) have R: "status (pop ! r) = St_R" by simp
  with Cons.prems(2)
  have "length (filter (\<lambda>j. pop ! j = pop ! r) xs) = length (filter (\<lambda>j. pop ! j = pop ! r) (r # rs))"
    by blast
  then have "filter (\<lambda>j. pop ! j = pop ! r) xs \<noteq> []" by auto
  then have "\<exists>j \<in> set xs. pop ! j = pop ! r" by (simp add: filter_empty_conv)
  from list_remove_spec [OF this] obtain ys j zs where
    xs: "xs = ys @ j # zs" and j: "pop ! j = pop ! r"
    and rm: "list_remove pop r xs = Inr (ys @ zs)"
    by blast
  have cnt: "length (filter (\<lambda>k. pop ! k = v) (ys @ zs)) = length (filter (\<lambda>k. pop ! k = v) rs)"
    if "status v = St_R" for v
  proof -
    from Cons.prems(2) that
    have "length (filter (\<lambda>k. pop ! k = v) xs) = length (filter (\<lambda>k. pop ! k = v) (r # rs))"
      by blast
    then show ?thesis using j by (simp add: xs split: if_splits)
  qed
  from Cons.prems(1) have "\<forall>r \<in> set rs. status (pop ! r) = St_R" by simp
  from Cons.IH [OF this] cnt
  have "remove_recovered pop rs (ys @ zs) = Inr (filter (\<lambda>j. status (pop ! j) \<noteq> St_R) (ys @ zs))"
    by blast
  moreover have "filter (\<lambda>j. status (pop ! j) \<noteq> St_R) (ys @ zs)
      = filter (\<lambda>j. status (pop ! j) \<noteq> St_R) xs"
    using j R by (simp add: xs)
  ultimately show ?case using rm by simp
qed

lemma scan_inv_start: "scan_inv pop infd [] pop []"
  by (simp add: scan_inv_def)

text \<open>
  The SIR \<^verbatim>\<open>step\<close>: from a consistent infected list it returns a consistent one, and
  the count it returns is the number of people it moved from \<^verbatim>\<open>'I'\<close> to \<^verbatim>\<open>'R'\<close>.
\<close>

lemma SIR_step_consistent:
  assumes step: "step c St_R pop infd cell_size g = Inr (pop', infd', n, g')"
    and cons: "consistent pop infd"
  shows "consistent pop' infd'" and "length pop' = length pop"
    and "\<forall>j < length pop. xpos (pop' ! j) = xpos (pop ! j) \<and> ypos (pop' ! j) = ypos (pop ! j)"
    and "n = length (filter (\<lambda>j. status (pop' ! j) = St_R) infd)"
proof -
  from step obtain grid new rec infdR where
    grid: "populate_grid pop cell_size = Inr grid"
    and va: "visit_all c St_R grid cell_size infd (pop, [], [], g) = Inr (pop', new, rec, g')"
    and rem: "remove_recovered pop' rec infd = Inr infdR"
    and out: "infd' = infdR @ new" and n: "n = length rec"
    by (auto simp: step_def split: sum.splits prod.splits)
  from cons have dinfd: "distinct infd"
    and sinfd: "set infd = {i. i < length pop \<and> status (pop ! i) = St_I}"
    by (simp_all add: consistent_def)
  from visit_all_inv [OF va scan_inv_start cons populate_grid_valid [OF grid] _ dinfd]
  have inv: "scan_inv pop infd rec pop' new" and drec: "distinct rec"
    and srec: "set rec \<subseteq> set infd"
    by auto
  from inv have len: "length pop' = length pop"
    and pos: "\<forall>j < length pop. xpos (pop' ! j) = xpos (pop ! j) \<and> ypos (pop' ! j) = ypos (pop ! j)"
    and dnew: "distinct new" and disj: "set new \<inter> set infd = {}"
    and bound: "\<forall>j \<in> set new. j < length pop"
    and st: "\<forall>j < length pop. status (pop' ! j) =
           (if j \<in> set new then St_I else if j \<in> set rec then St_R else status (pop ! j))"
    by (simp_all add: scan_inv_def)
  have st_infd: "status (pop' ! j) = (if j \<in> set rec then St_R else St_I)" if "j \<in> set infd" for j
    using that st sinfd disj by auto
  have recR: "\<forall>r \<in> set rec. status (pop' ! r) = St_R"
    using srec st_infd by auto
  have cnt: "\<forall>v. status v = St_R \<longrightarrow>
      length (filter (\<lambda>j. pop' ! j = v) infd) = length (filter (\<lambda>j. pop' ! j = v) rec)"
  proof (intro allI impI)
    fix v :: person
    assume v: "status v = St_R"
    have "set (filter (\<lambda>j. pop' ! j = v) infd) = set (filter (\<lambda>j. pop' ! j = v) rec)"
    proof (intro set_eqI iffI)
      fix j
      assume "j \<in> set (filter (\<lambda>j. pop' ! j = v) infd)"
      then have j: "j \<in> set infd" "pop' ! j = v" by simp_all
      with v st_infd [OF j(1)] have "j \<in> set rec" by (auto split: if_splits)
      with j show "j \<in> set (filter (\<lambda>j. pop' ! j = v) rec)" by simp
    next
      fix j
      assume "j \<in> set (filter (\<lambda>j. pop' ! j = v) rec)"
      with srec show "j \<in> set (filter (\<lambda>j. pop' ! j = v) infd)" by auto
    qed
    moreover have "distinct (filter (\<lambda>j. pop' ! j = v) infd)"
      "distinct (filter (\<lambda>j. pop' ! j = v) rec)"
      using dinfd drec by simp_all
    ultimately show "length (filter (\<lambda>j. pop' ! j = v) infd)
        = length (filter (\<lambda>j. pop' ! j = v) rec)"
      by (metis distinct_card)
  qed
  from remove_recovered_SIR [OF recR cnt] rem
  have infdR: "infdR = filter (\<lambda>j. status (pop' ! j) \<noteq> St_R) infd" by simp
  have d: "distinct infd'"
    using dinfd dnew disj by (auto simp: out infdR)
  have s: "set infd' = {i. i < length pop' \<and> status (pop' ! i) = St_I}"
  proof (intro set_eqI iffI)
    fix j
    assume "j \<in> set infd'"
    then consider "j \<in> set infd" "status (pop' ! j) \<noteq> St_R" | "j \<in> set new"
      by (auto simp: out infdR)
    then show "j \<in> {i. i < length pop' \<and> status (pop' ! i) = St_I}"
    proof cases
      case 1
      with st_infd [OF 1(1)] sinfd len show ?thesis by (auto split: if_splits)
    next
      case 2
      with bound st len show ?thesis by auto
    qed
  next
    fix j
    assume "j \<in> {i. i < length pop' \<and> status (pop' ! i) = St_I}"
    then have j: "j < length pop" "status (pop' ! j) = St_I" using len by simp_all
    show "j \<in> set infd'"
    proof (cases "j \<in> set new")
      case True
      then show ?thesis by (simp add: out)
    next
      case False
      with st j have "j \<notin> set rec" "status (pop ! j) = St_I" by (auto split: if_splits)
      with j sinfd have "j \<in> set infd" by simp
      with j show ?thesis by (simp add: out infdR)
    qed
  qed
  from d s show "consistent pop' infd'" by (simp add: consistent_def)
  from len show "length pop' = length pop" .
  from pos show "\<forall>j < length pop. xpos (pop' ! j) = xpos (pop ! j) \<and> ypos (pop' ! j) = ypos (pop ! j)" .
  have "filter (\<lambda>j. status (pop' ! j) = St_R) infd = filter (\<lambda>j. j \<in> set rec) infd"
  proof (rule filter_cong [OF refl])
    fix j
    assume "j \<in> set infd"
    from st_infd [OF this] show "(status (pop' ! j) = St_R) = (j \<in> set rec)" by simp
  qed
  moreover have "length (filter (\<lambda>j. j \<in> set rec) infd) = length rec"
  proof -
    have "set (filter (\<lambda>j. j \<in> set rec) infd) = set rec" using srec by auto
    moreover have "distinct (filter (\<lambda>j. j \<in> set rec) infd)" using dinfd by simp
    ultimately show ?thesis using drec by (metis distinct_card)
  qed
  ultimately show "n = length (filter (\<lambda>j. status (pop' ! j) = St_R) infd)"
    using n by simp
qed

lemma move_all_status:
  assumes "move_all c pop g = Inr (pop', g')"
  shows "map status pop' = map status pop"
  using assms
proof (induction pop arbitrary: pop' g)
  case Nil
  then show ?case by simp
next
  case (Cons p ps)
  from Cons.prems obtain d1 d2 g2 ps' where
    rest: "move_all c ps g2 = Inr (ps', g')"
    and pop': "pop' = p\<lparr>xpos := clamp (width c) (xpos p + d1),
                        ypos := clamp (height c) (ypos p + d2)\<rparr> # ps'"
    by (auto split: sum.splits prod.splits)
  from Cons.IH [OF rest] show ?case by (simp add: pop')
qed

lemma consistent_status:
  assumes "map status pop' = map status pop" and "consistent pop infd"
  shows "consistent pop' infd"
proof -
  from assms(1) have len: "length pop' = length pop" by (metis length_map)
  have "status (pop' ! i) = status (pop ! i)" if "i < length pop" for i
    using that assms(1) len by (metis nth_map)
  with len assms(2) show ?thesis by (auto simp: consistent_def)
qed

lemma initialise_consistent:
  assumes "initialise c g = Inr (pop, infd, g')"
  shows "consistent pop infd"
  using initialise_spec(2) [OF assms] by (auto simp: consistent_def)

lemma SIR_day_consistent:
  assumes "SIR_day c s = Inr s'" and "consistent (people s) (infected s)"
  shows "consistent (people s') (infected s')"
proof -
  from assms(1) obtain pop infd n g1 g2 where
    st: "step c St_R (people s) (infected s) (infect_distance c) (gen s) = Inr (pop, infd, n, g1)"
    and mv: "move_all c pop g1 = Inr (people s', g2)" and inf: "infected s' = infd"
    by (auto simp: SIR_day_def Let_def split: sum.splits prod.splits if_splits)
  from SIR_step_consistent(1) [OF st assms(2)] have "consistent pop infd" .
  from consistent_status [OF move_all_status [OF mv] this] inf show ?thesis by simp
qed

lemma SIR_loop_consistent:
  "SIR_loop c s = Inr s' \<Longrightarrow> consistent (people s) (infected s)
     \<Longrightarrow> consistent (people s') (infected s')"
proof (induction c s rule: SIR_loop.induct)
  case (1 c s)
  from "1.prems"(1) show ?case
  proof (cases rule: SIR_loop_cases)
    case stop
    with "1.prems"(2) show ?thesis by simp
  next
    case (go s1)
    from SIR_day_consistent [OF go(2) "1.prems"(2)]
    have "consistent (people s1) (infected s1)" .
    with "1.IH" [OF go(1) go(2) go(3)] show ?thesis .
  qed
qed

text \<open>At the end of the day loop of every SIR run the infected list holds exactly the
  people in state \<^verbatim>\<open>'I'\<close>, each once.\<close>

lemma SIR_run_consistent:
  assumes "SIR_run c g = Inr s"
  shows "consistent (people s) (infected s)"
proof -
  from assms obtain pop infd g1 where
    init: "initialise c g = Inr (pop, infd, g1)"
    and loop: "SIR_loop c \<lparr>people = pop, infected = infd, frames = [], step_count = 0,
                simulated_S = [number_of_people c - num_infected c],
                simulated_I = [num_infected c], simulated_R = [0], gen = g1\<rparr> = Inr s"
    by (rule SIR_run_cases)
  from SIR_loop_consistent [OF loop] initialise_consistent [OF init] show ?thesis by simp
qed

subsection \<open>What the scan of a step visits\<close>

text \<open>The scan of the nine cells applies \<^verbatim>\<open>contact\<close> to the candidates, in order.\<close>

lemma fold_scan_cell:
  "fold (scan_cell c grid i) cells st =
     fold (contact c i)
       (concat (map (\<lambda>nc. case grid nc of None \<Rightarrow> [] | Some ps \<Rightarrow> ps) cells)) st"
proof (induction cells arbitrary: st)
  case Nil
  show ?case by simp
next
  case (Cons nc cells)
  have one: "scan_cell c grid i nc st =
      fold (contact c i) (case grid nc of None \<Rightarrow> [] | Some ps \<Rightarrow> ps) st"
    by (simp add: scan_cell_def split: option.splits)
  show ?case using Cons.IH [of "scan_cell c grid i nc st"] one by simp
qed

lemma scan_candidates:
  "fold (scan_cell c grid i) (neighbor_cells cell) st
     = fold (contact c i) (candidates grid cell) st"
  by (simp only: fold_scan_cell candidates_def)

lemma visit_candidates:
  "visit c rs grid cell_size i (pop, new_infected, recover, g) =
     (case get_cell (xpos (pop ! i)) (ypos (pop ! i)) cell_size of
        Inl e \<Rightarrow> Inl e
      | Inr cell \<Rightarrow>
          (let (pop1, new1, g1) = fold (contact c i) (candidates grid cell) (pop, new_infected, g);
               (u, g2) = random_random g1
           in if u < recover_rate c
              then Inr (pop1[i := (pop1 ! i)\<lparr>status := rs\<rparr>], new1, recover @ [i], g2)
              else Inr (pop1, new1, recover, g2)))"
  by (simp only: visit_def scan_candidates prod.case)

lemma candidates_valid:
  assumes "grid_valid pop grid"
  shows "\<forall>p \<in> set (candidates grid cell). p < length pop"
proof
  fix p
  assume "p \<in> set (candidates grid cell)"
  then obtain nc where "p \<in> set (case grid nc of None \<Rightarrow> [] | Some ps \<Rightarrow> ps)"
    by (auto simp: candidates_def)
  then obtain ps where "grid nc = Some ps" "p \<in> set ps"
    by (cases "grid nc") auto
  with assms show "p < length pop" unfolding grid_valid_def by blast
qed

text \<open>
  The cover: a person within the radius of another is in the grid, in a cell next to
  the other's, and among the candidates of its scan.
\<close>

lemma cover:
  assumes i: "i < length pop" and p: "p < length pop"
    and near: "find_distance (pop ! i) (pop ! p) < d"
  shows "populate_grid pop d =
       Inr (\<lambda>cell. if filter (\<lambda>q. cell_of pop d q = cell) [0..<length pop] = [] then None
                   else Some (filter (\<lambda>q. cell_of pop d q = cell) [0..<length pop]))"
    and "get_cell (xpos (pop ! i)) (ypos (pop ! i)) d = Inr (cell_of pop d i)"
    and "get_cell (xpos (pop ! p)) (ypos (pop ! p)) d = Inr (cell_of pop d p)"
    and "\<bar>fst (cell_of pop d p) - fst (cell_of pop d i)\<bar> \<le> 1"
    and "\<bar>snd (cell_of pop d p) - snd (cell_of pop d i)\<bar> \<le> 1"
    and "cell_of pop d p \<in> set (neighbor_cells (cell_of pop d i))"
    and "populate_grid pop d = Inr grid \<Longrightarrow>
           grid (cell_of pop d p) = Some (filter (\<lambda>q. cell_of pop d q = cell_of pop d p) [0..<length pop])"
    and "populate_grid pop d = Inr grid \<Longrightarrow> p \<in> set (candidates grid (cell_of pop d i))"
proof -
  from near have d: "0 < d"
    and lt: "real_of_int ((xpos (pop ! i) - xpos (pop ! p))\<^sup>2 + (ypos (pop ! i) - ypos (pop ! p))\<^sup>2) < d\<^sup>2"
    by (simp_all add: find_distance_lt)
  let ?xi = "real_of_int (xpos (pop ! i))" and ?xp = "real_of_int (xpos (pop ! p))"
  let ?yi = "real_of_int (ypos (pop ! i))" and ?yp = "real_of_int (ypos (pop ! p))"
  from lt have lt': "(?xi - ?xp)\<^sup>2 + (?yi - ?yp)\<^sup>2 < d\<^sup>2" by simp
  from square_less_abs [OF d lt'] have x: "\<bar>?xi - ?xp\<bar> < d" .
  from lt' have "(?yi - ?yp)\<^sup>2 + (?xi - ?xp)\<^sup>2 < d\<^sup>2" by (simp add: add.commute)
  from square_less_abs [OF d this] have y: "\<bar>?yi - ?yp\<bar> < d" .
  from d have ne: "d \<noteq> 0" by simp
  let ?cell = "cell_of pop d i" and ?cell_p = "cell_of pop d p"
  let ?G = "\<lambda>cell. if filter (\<lambda>q. cell_of pop d q = cell) [0..<length pop] = [] then None
                   else Some (filter (\<lambda>q. cell_of pop d q = cell) [0..<length pop])"
  let ?ps = "filter (\<lambda>q. cell_of pop d q = ?cell_p) [0..<length pop]"
  show grid: "populate_grid pop d = Inr ?G" by (rule populate_grid_spec [OF ne])
  show "get_cell (xpos (pop ! i)) (ypos (pop ! i)) d = Inr ?cell"
    and "get_cell (xpos (pop ! p)) (ypos (pop ! p)) d = Inr ?cell_p"
    using ne by (simp_all add: get_cell_def cell_of_def)
  from floor_div_near [OF d x] show nx: "\<bar>fst ?cell_p - fst ?cell\<bar> \<le> 1"
    by (simp add: cell_of_def)
  from floor_div_near [OF d y] show ny: "\<bar>snd ?cell_p - snd ?cell\<bar> \<le> 1"
    by (simp add: cell_of_def)
  from nx ny show nb: "?cell_p \<in> set (neighbor_cells ?cell)"
    unfolding neighbor_cells_iff by linarith
  have mem: "p \<in> set ?ps" using p by simp
  then have nonempty: "?ps \<noteq> []" by force
  then have look: "?G ?cell_p = Some ?ps" by simp
  {
    assume "populate_grid pop d = Inr grid"
    with grid have g: "grid = ?G" by simp
    with look show "grid ?cell_p = Some ?ps" by simp
    with nb mem show "p \<in> set (candidates grid ?cell)"
      unfolding candidates_def by (auto intro!: bexI [of _ ?cell_p])
  }
qed

subsection \<open>A contact that always succeeds\<close>

lemma random_random_less_one: "fst (random_random g) < 1"
proof -
  have "g 0 mod 2 ^ 53 < 2 ^ 53" by simp
  then have "real (g 0 mod 2 ^ 53) < 2 ^ 53"
    by (metis of_nat_less_iff of_nat_numeral of_nat_power)
  then show ?thesis by (simp add: random_random_def)
qed

lemma find_distance_positions:
  assumes "xpos p1 = xpos q1" "ypos p1 = ypos q1" "xpos p2 = xpos q2" "ypos p2 = ypos q2"
  shows "find_distance p1 p2 = find_distance q1 q2"
  using assms by (simp add: find_distance_def)

lemma contact_outside:
  assumes inv: "outside_inv pop0 infd0 pop1 new"
    and q: "q < length pop0"
    and res: "contact c i q (pop1, new, g) = (pop2, new2, g2)"
  shows "outside_inv pop0 infd0 pop2 new2" and "set new \<subseteq> set new2"
proof -
  from inv have len: "length pop1 = length pop0"
    and pos: "\<forall>j < length pop0. xpos (pop1 ! j) = xpos (pop0 ! j) \<and> ypos (pop1 ! j) = ypos (pop0 ! j)"
    and st: "\<forall>j < length pop0. j \<notin> set infd0 \<longrightarrow>
           status (pop1 ! j) = (if j \<in> set new then St_I else status (pop0 ! j))"
    by (simp_all add: outside_inv_def)
  have "outside_inv pop0 infd0 pop2 new2 \<and> set new \<subseteq> set new2"
  proof (cases "pop2 = pop1 \<and> new2 = new")
    case True
    with inv show ?thesis by simp
  next
    case False
    with res have pop2: "pop2 = pop1[q := (pop1 ! q)\<lparr>status := St_I\<rparr>]"
      and new2: "new2 = new @ [q]"
      by (auto simp: contact_def Let_def split: if_splits prod.splits)
    have 1: "length pop2 = length pop0" using len by (simp add: pop2)
    have 2: "\<forall>j < length pop0. xpos (pop2 ! j) = xpos (pop0 ! j) \<and> ypos (pop2 ! j) = ypos (pop0 ! j)"
      using pos len q by (auto simp: pop2 nth_list_update)
    have 3: "\<forall>j < length pop0. j \<notin> set infd0 \<longrightarrow>
           status (pop2 ! j) = (if j \<in> set new2 then St_I else status (pop0 ! j))"
      using st len q by (auto simp: pop2 new2 nth_list_update)
    from 1 2 3 show ?thesis by (auto simp: outside_inv_def new2)
  qed
  then show "outside_inv pop0 infd0 pop2 new2" and "set new \<subseteq> set new2" by blast+
qed

lemma contact_hit:
  assumes inv: "outside_inv pop0 infd0 pop1 new"
    and i: "i < length pop0" and p: "p < length pop0" and out: "p \<notin> set infd0"
    and S: "status (pop0 ! p) = St_S"
    and near: "find_distance (pop0 ! i) (pop0 ! p) < infect_distance c"
    and sure: "1 \<le> infect_rate c"
    and res: "contact c i p (pop1, new, g) = (pop2, new2, g2)"
  shows "p \<in> set new2"
proof (cases "p \<in> set new")
  case True
  with contact_outside(2) [OF inv p res] show ?thesis by blast
next
  case False
  from inv have pos: "\<forall>j < length pop0. xpos (pop1 ! j) = xpos (pop0 ! j) \<and> ypos (pop1 ! j) = ypos (pop0 ! j)"
    and st: "\<forall>j < length pop0. j \<notin> set infd0 \<longrightarrow>
           status (pop1 ! j) = (if j \<in> set new then St_I else status (pop0 ! j))"
    by (simp_all add: outside_inv_def)
  from st p out False S have S1: "status (pop1 ! p) = St_S" by simp
  from pos i p have "find_distance (pop1 ! i) (pop1 ! p) = find_distance (pop0 ! i) (pop0 ! p)"
    by (intro find_distance_positions) simp_all
  with near have near1: "find_distance (pop1 ! i) (pop1 ! p) < infect_distance c" by simp
  from random_random_less_one [of g] sure have "fst (random_random g) < infect_rate c"
    by linarith
  with S1 near1 res have "new2 = new @ [p]"
    by (auto simp: contact_def Let_def split: prod.splits)
  then show ?thesis by simp
qed

lemma fold_contact_outside:
  assumes "outside_inv pop0 infd0 pop1 new" and "\<forall>q \<in> set qs. q < length pop0"
    and "fold (contact c i) qs (pop1, new, g) = (pop2, new2, g2)"
  shows "outside_inv pop0 infd0 pop2 new2 \<and> set new \<subseteq> set new2"
  using assms
proof (induction qs arbitrary: pop1 new g)
  case Nil
  then show ?case by simp
next
  case (Cons q qs)
  obtain pop1' new' g' where c: "contact c i q (pop1, new, g) = (pop1', new', g')"
    by (metis prod_cases3)
  from Cons.prems(2) have q: "q < length pop0" by simp
  from contact_outside [OF Cons.prems(1) q c]
  have inv': "outside_inv pop0 infd0 pop1' new'" and sub: "set new \<subseteq> set new'" .
  from Cons.prems(3) c have "fold (contact c i) qs (pop1', new', g') = (pop2, new2, g2)"
    by simp
  with Cons.IH [OF inv' _ this] Cons.prems(2) sub show ?case by auto
qed

lemma fold_contact_hit:
  assumes "outside_inv pop0 infd0 pop1 new" and "\<forall>q \<in> set qs. q < length pop0"
    and "fold (contact c i) qs (pop1, new, g) = (pop2, new2, g2)"
    and "p \<in> set qs"
    and "i < length pop0" and "p \<notin> set infd0" and "status (pop0 ! p) = St_S"
    and "find_distance (pop0 ! i) (pop0 ! p) < infect_distance c" and "1 \<le> infect_rate c"
  shows "p \<in> set new2"
  using assms(1-4)
proof (induction qs arbitrary: pop1 new g)
  case Nil
  then show ?case by simp
next
  case (Cons q qs)
  obtain pop1' new' g' where c: "contact c i q (pop1, new, g) = (pop1', new', g')"
    by (metis prod_cases3)
  from Cons.prems(2) have q: "q < length pop0" and qs: "\<forall>q \<in> set qs. q < length pop0"
    by simp_all
  from contact_outside [OF Cons.prems(1) q c]
  have inv': "outside_inv pop0 infd0 pop1' new'" and sub: "set new \<subseteq> set new'" .
  from Cons.prems(3) c have rest: "fold (contact c i) qs (pop1', new', g') = (pop2, new2, g2)"
    by simp
  show ?case
  proof (cases "p = q")
    case True
    with c have "contact c i p (pop1, new, g) = (pop1', new', g')" by simp
    from contact_hit [OF Cons.prems(1) assms(5) _ assms(6,7,8,9) this] q True
    have "p \<in> set new'" by simp
    with fold_contact_outside [OF inv' qs rest] show ?thesis by blast
  next
    case False
    with Cons.prems(4) have "p \<in> set qs" by simp
    from Cons.IH [OF inv' qs rest this] show ?thesis .
  qed
qed

lemma visit_outside:
  assumes inv: "outside_inv pop0 infd0 pop1 new"
    and grid: "grid_valid pop0 grid" and i: "i \<in> set infd0"
    and res: "visit c rs grid cell_size i (pop1, new, rec, g) = Inr (pop2, new2, rec2, g2)"
  shows "outside_inv pop0 infd0 pop2 new2" and "set new \<subseteq> set new2"
    and "\<exists>cell popS gS. get_cell (xpos (pop1 ! i)) (ypos (pop1 ! i)) cell_size = Inr cell
           \<and> fold (contact c i) (candidates grid cell) (pop1, new, g) = (popS, new2, gS)"
proof -
  from res obtain cell where
    cell: "get_cell (xpos (pop1 ! i)) (ypos (pop1 ! i)) cell_size = Inr cell"
    by (auto simp: visit_def split: sum.splits)
  obtain popS newS gS where
    scan: "fold (contact c i) (candidates grid cell) (pop1, new, g) = (popS, newS, gS)"
    by (metis prod_cases3)
  with cell res have out: "(pop2, new2, rec2, g2) =
      (if fst (random_random gS) < recover_rate c
       then (popS[i := (popS ! i)\<lparr>status := rs\<rparr>], newS, rec @ [i], snd (random_random gS))
       else (popS, newS, rec, snd (random_random gS)))"
    by (auto simp: visit_candidates Let_def split: prod.splits if_splits)
  then have new2: "new2 = newS" by (simp split: if_splits)
  from fold_contact_outside [OF inv candidates_valid [OF grid] scan]
  have invS: "outside_inv pop0 infd0 popS newS" and sub: "set new \<subseteq> set newS" by blast+
  from sub new2 show "set new \<subseteq> set new2" by simp
  from cell scan new2
  show "\<exists>cell popS gS. get_cell (xpos (pop1 ! i)) (ypos (pop1 ! i)) cell_size = Inr cell
           \<and> fold (contact c i) (candidates grid cell) (pop1, new, g) = (popS, new2, gS)"
    by blast
  show "outside_inv pop0 infd0 pop2 new2"
  proof (cases "fst (random_random gS) < recover_rate c")
    case False
    with out invS show ?thesis by simp
  next
    case True
    with out have pop2: "pop2 = popS[i := (popS ! i)\<lparr>status := rs\<rparr>]" by simp
    from invS have len: "length popS = length pop0"
      and pos: "\<forall>j < length pop0. xpos (popS ! j) = xpos (pop0 ! j) \<and> ypos (popS ! j) = ypos (pop0 ! j)"
      and st: "\<forall>j < length pop0. j \<notin> set infd0 \<longrightarrow>
           status (popS ! j) = (if j \<in> set newS then St_I else status (pop0 ! j))"
      by (simp_all add: outside_inv_def)
    have 1: "length pop2 = length pop0" using len by (simp add: pop2)
    have 2: "\<forall>j < length pop0. xpos (pop2 ! j) = xpos (pop0 ! j) \<and> ypos (pop2 ! j) = ypos (pop0 ! j)"
    proof (intro allI impI)
      fix j assume j: "j < length pop0"
      show "xpos (pop2 ! j) = xpos (pop0 ! j) \<and> ypos (pop2 ! j) = ypos (pop0 ! j)"
        using pos j len by (cases "j = i") (simp_all add: pop2)
    qed
    have 3: "\<forall>j < length pop0. j \<notin> set infd0 \<longrightarrow>
           status (pop2 ! j) = (if j \<in> set new2 then St_I else status (pop0 ! j))"
    proof (intro allI impI)
      fix j assume j: "j < length pop0" "j \<notin> set infd0"
      with i have "j \<noteq> i" by auto
      with st j show "status (pop2 ! j) = (if j \<in> set new2 then St_I else status (pop0 ! j))"
        by (simp add: pop2 new2)
    qed
    from 1 2 3 show ?thesis by (simp add: outside_inv_def)
  qed
qed

lemma visit_all_outside:
  assumes "visit_all c rs grid cell_size rest (pop1, new, rec, g) = Inr (pop2, new2, rec2, g2)"
    and "outside_inv pop0 infd0 pop1 new" and "grid_valid pop0 grid"
    and "set rest \<subseteq> set infd0"
  shows "outside_inv pop0 infd0 pop2 new2 \<and> set new \<subseteq> set new2"
  using assms
proof (induction rest arbitrary: pop1 new rec g)
  case Nil
  then show ?case by simp
next
  case (Cons j rest)
  from Cons.prems(1) obtain pop1' new' rec' g' where
    v: "visit c rs grid cell_size j (pop1, new, rec, g) = Inr (pop1', new', rec', g')"
    and va: "visit_all c rs grid cell_size rest (pop1', new', rec', g') = Inr (pop2, new2, rec2, g2)"
    by (auto split: sum.splits)
  from Cons.prems(4) have j: "j \<in> set infd0" and sub: "set rest \<subseteq> set infd0" by simp_all
  from visit_outside(1,2) [OF Cons.prems(2) Cons.prems(3) j v]
  have inv': "outside_inv pop0 infd0 pop1' new'" and mono: "set new \<subseteq> set new'" .
  from Cons.IH [OF va inv' Cons.prems(3) sub] mono show ?case by auto
qed

lemma visit_all_hit:
  assumes "visit_all c rs grid (infect_distance c) rest (pop1, new, rec, g) = Inr (pop2, new2, rec2, g2)"
    and "outside_inv pop0 infd0 pop1 new"
    and "set rest \<subseteq> set infd0" and "i \<in> set rest"
    and grid: "populate_grid pop0 (infect_distance c) = Inr grid"
    and i: "i < length pop0" and p: "p < length pop0" and out: "p \<notin> set infd0"
    and S: "status (pop0 ! p) = St_S"
    and near: "find_distance (pop0 ! i) (pop0 ! p) < infect_distance c"
    and sure: "1 \<le> infect_rate c"
  shows "p \<in> set new2"
  using assms(1-4)
proof (induction rest arbitrary: pop1 new rec g)
  case Nil
  then show ?case by simp
next
  case (Cons j rest)
  from populate_grid_valid [OF grid] have valid: "grid_valid pop0 grid" .
  from Cons.prems(1) obtain pop1' new' rec' g' where
    v: "visit c rs grid (infect_distance c) j (pop1, new, rec, g) = Inr (pop1', new', rec', g')"
    and va: "visit_all c rs grid (infect_distance c) rest (pop1', new', rec', g')
               = Inr (pop2, new2, rec2, g2)"
    by (auto split: sum.splits)
  from Cons.prems(3) have j: "j \<in> set infd0" and sub: "set rest \<subseteq> set infd0" by simp_all
  from visit_outside [OF Cons.prems(2) valid j v]
  have inv': "outside_inv pop0 infd0 pop1' new'" and mono: "set new \<subseteq> set new'"
    and scan: "\<exists>cell popS gS. get_cell (xpos (pop1 ! j)) (ypos (pop1 ! j)) (infect_distance c) = Inr cell
           \<and> fold (contact c j) (candidates grid cell) (pop1, new, g) = (popS, new', gS)"
    by blast+
  show ?case
  proof (cases "j = i")
    case False
    with Cons.prems(4) have "i \<in> set rest" by simp
    from Cons.IH [OF va inv' sub this] show ?thesis .
  next
    case True
    from scan True obtain cell popS gS where
      cell: "get_cell (xpos (pop1 ! i)) (ypos (pop1 ! i)) (infect_distance c) = Inr cell"
      and fold: "fold (contact c i) (candidates grid cell) (pop1, new, g) = (popS, new', gS)"
      by blast
    from Cons.prems(2) i have "xpos (pop1 ! i) = xpos (pop0 ! i)" "ypos (pop1 ! i) = ypos (pop0 ! i)"
      by (simp_all add: outside_inv_def)
    with cell cover(2) [OF i p near] have "cell = cell_of pop0 (infect_distance c) i" by simp
    with cover(8) [OF i p near grid] have mem: "p \<in> set (candidates grid cell)" by simp
    from fold_contact_hit [OF Cons.prems(2) candidates_valid [OF valid] fold mem i out S near sure]
    have "p \<in> set new'" .
    with visit_all_outside [OF va inv' valid sub] show ?thesis by blast
  qed
qed

text \<open>
  In a step with a contact that always succeeds, a susceptible person within the
  radius of somebody on the infected list is infected and joins the returned list, in
  SIR and in SIS.
\<close>

lemma step_infects:
  assumes step: "step c rs pop infd (infect_distance c) g = Inr (pop', infd', n, g')"
    and iin: "i \<in> set infd" and i: "i < length pop" and p: "p < length pop"
    and out: "p \<notin> set infd" and S: "status (pop ! p) = St_S"
    and near: "find_distance (pop ! i) (pop ! p) < infect_distance c"
    and sure: "1 \<le> infect_rate c"
  shows "status (pop' ! p) = St_I" and "p \<in> set infd'"
proof -
  from step obtain grid new rec infdR where
    grid: "populate_grid pop (infect_distance c) = Inr grid"
    and va: "visit_all c rs grid (infect_distance c) infd (pop, [], [], g) = Inr (pop', new, rec, g')"
    and out': "infd' = infdR @ new"
    by (auto simp: step_def split: sum.splits prod.splits)
  have start: "outside_inv pop infd pop []" by (simp add: outside_inv_def)
  from visit_all_hit [OF va start subset_refl iin grid i p out S near sure]
  have mem: "p \<in> set new" .
  with out' show "p \<in> set infd'" by simp
  from visit_all_outside [OF va start populate_grid_valid [OF grid] subset_refl]
  have "outside_inv pop infd pop' new" by blast
  with p out mem show "status (pop' ! p) = St_I" by (simp add: outside_inv_def)
qed

subsection \<open>What the invariants give\<close>

lemma SIR_inv_conserved:
  assumes "SIR_inv c s"
  shows "length (simulated_S s) = nat (step_count s + 1)
      \<and> length (simulated_I s) = nat (step_count s + 1)
      \<and> length (simulated_R s) = nat (step_count s + 1)
      \<and> (\<forall>d < length (simulated_I s).
            simulated_S s ! d + simulated_I s ! d + simulated_R s ! d = number_of_people c)"
proof -
  from assms have len: "int (length (simulated_I s)) = step_count s + 1"
    by (simp add: SIR_inv_def)
  then have "length (simulated_I s) = nat (step_count s + 1)" by linarith
  with assms show ?thesis by (simp add: SIR_inv_def)
qed

lemma SIS_inv_conserved:
  assumes "SIS_inv c' s" and "number_of_people c' = number_of_people c"
  shows "length (sis_simulated_S s) = nat (sis_step_count s + 1)
      \<and> length (sis_simulated_I s) = nat (sis_step_count s + 1)
      \<and> (\<forall>d < length (sis_simulated_I s).
            sis_simulated_S s ! d + sis_simulated_I s ! d = number_of_people c)"
proof -
  from assms have len: "int (length (sis_simulated_I s)) = sis_step_count s + 1"
    by (simp add: SIS_inv_def)
  then have "length (sis_simulated_I s) = nat (sis_step_count s + 1)" by linarith
  with assms show ?thesis by (simp add: SIS_inv_def)
qed

lemma SIR_inv_live:
  assumes "SIR_inv c s"
  shows "0 \<le> step_count s" and "step_count s \<le> max 0 (max_days c + 1)"
    and "\<forall>d. 1 \<le> d \<and> int d < step_count s \<longrightarrow> 0 < simulated_I s ! d"
    and "frames s = [] \<longleftrightarrow> step_count s = 0"
proof -
  from assms show "0 \<le> step_count s" "step_count s \<le> max 0 (max_days c + 1)"
    by (simp_all add: SIR_inv_def)
  from assms have len: "int (length (simulated_I s)) = step_count s + 1"
    and live: "\<forall>d. 1 \<le> d \<and> Suc d < length (simulated_I s) \<longrightarrow> 0 < simulated_I s ! d"
    and fr: "int (length (frames s)) = step_count s"
    by (simp_all add: SIR_inv_def)
  show "\<forall>d. 1 \<le> d \<and> int d < step_count s \<longrightarrow> 0 < simulated_I s ! d"
  proof (intro allI impI)
    fix d :: nat
    assume d: "1 \<le> d \<and> int d < step_count s"
    with len have "Suc d < length (simulated_I s)" by linarith
    with d live show "0 < simulated_I s ! d" by blast
  qed
  from fr show "frames s = [] \<longleftrightarrow> step_count s = 0" by auto
qed

lemma SIS_inv_live:
  assumes "SIS_inv c' s" and "max_days c' = max_days c"
  shows "0 \<le> sis_step_count s" and "sis_step_count s \<le> max 0 (max_days c + 1)"
    and "\<forall>d. 1 \<le> d \<and> int d < sis_step_count s \<longrightarrow> 0 < sis_simulated_I s ! d"
    and "sis_frames s = [] \<longleftrightarrow> sis_step_count s = 0"
proof -
  from assms show "0 \<le> sis_step_count s" "sis_step_count s \<le> max 0 (max_days c + 1)"
    by (simp_all add: SIS_inv_def)
  from assms have len: "int (length (sis_simulated_I s)) = sis_step_count s + 1"
    and live: "\<forall>d. 1 \<le> d \<and> Suc d < length (sis_simulated_I s) \<longrightarrow> 0 < sis_simulated_I s ! d"
    and fr: "int (length (sis_frames s)) = sis_step_count s"
    by (simp_all add: SIS_inv_def)
  show "\<forall>d. 1 \<le> d \<and> int d < sis_step_count s \<longrightarrow> 0 < sis_simulated_I s ! d"
  proof (intro allI impI)
    fix d :: nat
    assume d: "1 \<le> d \<and> int d < sis_step_count s"
    with len have "Suc d < length (sis_simulated_I s)" by linarith
    with d live show "0 < sis_simulated_I s ! d" by blast
  qed
  from fr show "sis_frames s = [] \<longleftrightarrow> sis_step_count s = 0" by auto
qed

text \<open>A run that places nobody infected leaves its day loop at once.\<close>

lemma SIR_run_no_seed:
  assumes run: "SIR_run c g = Inr s" and init: "initialise c g = Inr (pop, [], g1)"
  shows "step_count s = 0"
proof -
  from run obtain pop' infd g1' where
    "initialise c g = Inr (pop', infd, g1')"
    and loop: "SIR_loop c \<lparr>people = pop', infected = infd, frames = [], step_count = 0,
                simulated_S = [number_of_people c - num_infected c],
                simulated_I = [num_infected c], simulated_R = [0], gen = g1'\<rparr> = Inr s"
    by (rule SIR_run_cases)
  with init have "infd = []" by simp
  with loop have "s = \<lparr>people = pop', infected = [], frames = [], step_count = 0,
                simulated_S = [number_of_people c - num_infected c],
                simulated_I = [num_infected c], simulated_R = [0], gen = g1'\<rparr>"
    by (subst (asm) SIR_loop_stop) auto
  then show ?thesis by simp
qed

lemma SIS_run_no_seed:
  assumes run: "SIS_run c g = Inr s" and init: "initialise (fixed c) g = Inr (pop, [], g1)"
  shows "sis_step_count s = 0"
proof -
  from run obtain pop' infd g1' where
    "initialise (fixed c) g = Inr (pop', infd, g1')"
    and loop: "SIS_loop (fixed c) \<lparr>sis_people = pop', sis_infected = infd, sis_frames = [],
                sis_step_count = 0,
                sis_simulated_S = [number_of_people c - num_infected c],
                sis_simulated_I = [num_infected c], sis_gen = g1'\<rparr> = Inr s"
    by (rule SIS_run_cases)
  with init have "infd = []" by simp
  with loop have "s = \<lparr>sis_people = pop', sis_infected = [], sis_frames = [],
                sis_step_count = 0,
                sis_simulated_S = [number_of_people c - num_infected c],
                sis_simulated_I = [num_infected c], sis_gen = g1'\<rparr>"
    by (subst (asm) SIS_loop_stop) auto
  then show ?thesis by simp
qed

section \<open>The claims\<close>

text \<open>
  C1. Population conservation in the agent-based trajectory: in a completed SIR run the
  three lists have one entry per day, \<open>step_count + 1\<close> in all, and on every recorded
  day \<open>d\<close> the entries satisfy
  \<open>simulated_S[d] + simulated_I[d] + simulated_R[d] = number_of_people\<close>; in a
  completed SIS run \<open>simulated_S[d] + simulated_I[d] = number_of_people\<close>. The same
  holds of the lists at the end of the day loop, whatever happens after it.
\<close>

theorem population_conservation:
  "(create_SIR_simulation c g = Inr r \<longrightarrow>
      length (simulated_S (final r)) = nat (step_count (final r) + 1)
      \<and> length (simulated_I (final r)) = nat (step_count (final r) + 1)
      \<and> length (simulated_R (final r)) = nat (step_count (final r) + 1)
      \<and> (\<forall>d < length (simulated_I (final r)).
            simulated_S (final r) ! d + simulated_I (final r) ! d + simulated_R (final r) ! d
              = number_of_people c))
   \<and> (create_SIS_simulation c g = Inr r' \<longrightarrow>
      length (sis_simulated_S (sis_final r')) = nat (sis_step_count (sis_final r') + 1)
      \<and> length (sis_simulated_I (sis_final r')) = nat (sis_step_count (sis_final r') + 1)
      \<and> (\<forall>d < length (sis_simulated_I (sis_final r')).
            sis_simulated_S (sis_final r') ! d + sis_simulated_I (sis_final r') ! d
              = number_of_people c))
   \<and> (SIR_run c g = Inr s \<longrightarrow>
      length (simulated_S s) = nat (step_count s + 1)
      \<and> length (simulated_I s) = nat (step_count s + 1)
      \<and> length (simulated_R s) = nat (step_count s + 1)
      \<and> (\<forall>d < length (simulated_I s).
            simulated_S s ! d + simulated_I s ! d + simulated_R s ! d = number_of_people c))
   \<and> (SIS_run c g = Inr s' \<longrightarrow>
      length (sis_simulated_S s') = nat (sis_step_count s' + 1)
      \<and> length (sis_simulated_I s') = nat (sis_step_count s' + 1)
      \<and> (\<forall>d < length (sis_simulated_I s').
            sis_simulated_S s' ! d + sis_simulated_I s' ! d = number_of_people c))"
proof (intro conjI impI)
  assume "create_SIR_simulation c g = Inr r"
  from SIR_inv_conserved [OF SIR_run_inv(1) [OF create_SIR_run(1) [OF this] ]]
  show "length (simulated_S (final r)) = nat (step_count (final r) + 1)"
    "length (simulated_I (final r)) = nat (step_count (final r) + 1)"
    "length (simulated_R (final r)) = nat (step_count (final r) + 1)"
    "\<forall>d < length (simulated_I (final r)).
      simulated_S (final r) ! d + simulated_I (final r) ! d + simulated_R (final r) ! d
        = number_of_people c"
    by blast+
next
  assume "create_SIS_simulation c g = Inr r'"
  from SIS_inv_conserved [OF SIS_run_inv(1) [OF create_SIS_run(1) [OF this] ], of c]
  show "length (sis_simulated_S (sis_final r')) = nat (sis_step_count (sis_final r') + 1)"
    "length (sis_simulated_I (sis_final r')) = nat (sis_step_count (sis_final r') + 1)"
    "\<forall>d < length (sis_simulated_I (sis_final r')).
      sis_simulated_S (sis_final r') ! d + sis_simulated_I (sis_final r') ! d
        = number_of_people c"
    by simp_all
next
  assume "SIR_run c g = Inr s"
  from SIR_inv_conserved [OF SIR_run_inv(1) [OF this] ]
  show "length (simulated_S s) = nat (step_count s + 1)"
    "length (simulated_I s) = nat (step_count s + 1)"
    "length (simulated_R s) = nat (step_count s + 1)"
    "\<forall>d < length (simulated_I s).
      simulated_S s ! d + simulated_I s ! d + simulated_R s ! d = number_of_people c"
    by blast+
next
  assume "SIS_run c g = Inr s'"
  from SIS_inv_conserved [OF SIS_run_inv(1) [OF this], of c]
  show "length (sis_simulated_S s') = nat (sis_step_count s' + 1)"
    "length (sis_simulated_I s') = nat (sis_step_count s' + 1)"
    "\<forall>d < length (sis_simulated_I s').
      sis_simulated_S s' ! d + sis_simulated_I s' ! d = number_of_people c"
    by simp_all
qed

theorem population_conservation_witness:
  "create_SIR_simulation cfg_two (replay []) = Inr res_SIR_two
   \<and> simulated_S (final res_SIR_two) ! 1 + simulated_I (final res_SIR_two) ! 1
       + simulated_R (final res_SIR_two) ! 1 = 2
   \<and> create_SIS_simulation cfg_custom rng_custom = Inr res_SIS_custom
   \<and> sis_simulated_S (sis_final res_SIS_custom) ! 1
       + sis_simulated_I (sis_final res_SIS_custom) ! 1 = 2
   \<and> SIR_run cfg_invalid (replay []) = Inr run_invalid
   \<and> simulated_S run_invalid ! 1 + simulated_I run_invalid ! 1 + simulated_R run_invalid ! 1 = 1
   \<and> SIS_run cfg_custom rng_custom = Inr (sis_final res_SIS_custom)"
  using population_conservation [of cfg_two "replay []" res_SIR_two]
    population_conservation [of cfg_custom rng_custom _ res_SIS_custom _ "sis_final res_SIS_custom"]
    population_conservation [of cfg_invalid "replay []" _ _ run_invalid]
    run_SIR_two run_SIS_custom loop_SIR_invalid loop_SIS_custom
  by (simp add: res_SIR_two_def res_SIS_custom_def run_invalid_def cfg_two_def cfg_custom_def
      cfg_invalid_def)

text \<open>
  C5. Termination of the run loop. The day loop of either variant is a total function:
  every iteration adds one to \<open>step_count\<close>, which the guard bounds by \<open>max_days\<close>. A
  run has executed the loop body \<open>step_count\<close> times, at most \<open>max_days + 1\<close> times (and
  not at all when \<open>max_days\<close> is negative); it has stopped with an empty infected list
  or with \<open>step_count\<close> above \<open>max_days\<close>, and no earlier day on which the loop went
  on had recorded an empty infected list. A run whose initial infected list is empty
  executes no day. This holds of every run whose day loop ends, and so of every
  completed run; a completed run has executed at least one day.
\<close>

theorem run_loop_bounded:
  "(create_SIR_simulation c g = Inr r \<longrightarrow>
      0 \<le> step_count (final r)
      \<and> step_count (final r) \<le> max 0 (max_days c + 1)
      \<and> (infected (final r) = [] \<or> max_days c < step_count (final r))
      \<and> (\<forall>d. 1 \<le> d \<and> int d < step_count (final r) \<longrightarrow> 0 < simulated_I (final r) ! d)
      \<and> (\<forall>pop g1. initialise c g = Inr (pop, [], g1) \<longrightarrow> step_count (final r) = 0))
   \<and> (create_SIS_simulation c g = Inr r' \<longrightarrow>
      0 \<le> sis_step_count (sis_final r')
      \<and> sis_step_count (sis_final r') \<le> max 0 (max_days c + 1)
      \<and> (sis_infected (sis_final r') = [] \<or> max_days c < sis_step_count (sis_final r'))
      \<and> (\<forall>d. 1 \<le> d \<and> int d < sis_step_count (sis_final r')
            \<longrightarrow> 0 < sis_simulated_I (sis_final r') ! d)
      \<and> (\<forall>pop g1. initialise (fixed c) g = Inr (pop, [], g1)
            \<longrightarrow> sis_step_count (sis_final r') = 0))
   \<and> (SIR_run c g = Inr s \<longrightarrow>
      0 \<le> step_count s
      \<and> step_count s \<le> max 0 (max_days c + 1)
      \<and> (infected s = [] \<or> max_days c < step_count s)
      \<and> (\<forall>d. 1 \<le> d \<and> int d < step_count s \<longrightarrow> 0 < simulated_I s ! d)
      \<and> (\<forall>pop g1. initialise c g = Inr (pop, [], g1) \<longrightarrow> step_count s = 0))
   \<and> (SIS_run c g = Inr s' \<longrightarrow>
      0 \<le> sis_step_count s'
      \<and> sis_step_count s' \<le> max 0 (max_days c + 1)
      \<and> (sis_infected s' = [] \<or> max_days c < sis_step_count s')
      \<and> (\<forall>d. 1 \<le> d \<and> int d < sis_step_count s' \<longrightarrow> 0 < sis_simulated_I s' ! d)
      \<and> (\<forall>pop g1. initialise (fixed c) g = Inr (pop, [], g1) \<longrightarrow> sis_step_count s' = 0))
   \<and> (create_SIR_simulation c g = Inr r \<longrightarrow>
        SIR_run c g = Inr (final r) \<and> 1 \<le> step_count (final r))
   \<and> (create_SIS_simulation c g = Inr r' \<longrightarrow>
        SIS_run c g = Inr (sis_final r') \<and> 1 \<le> sis_step_count (sis_final r'))"
proof -
  have sir: "0 \<le> step_count s
      \<and> step_count s \<le> max 0 (max_days c + 1)
      \<and> (infected s = [] \<or> max_days c < step_count s)
      \<and> (\<forall>d. 1 \<le> d \<and> int d < step_count s \<longrightarrow> 0 < simulated_I s ! d)
      \<and> (\<forall>pop g1. initialise c g = Inr (pop, [], g1) \<longrightarrow> step_count s = 0)"
    if run: "SIR_run c g = Inr s" for s
    using SIR_inv_live(1-3) [OF SIR_run_inv(1) [OF run] ] SIR_run_inv(2) [OF run]
      SIR_run_no_seed [OF run]
    by blast
  have sis: "0 \<le> sis_step_count s
      \<and> sis_step_count s \<le> max 0 (max_days c + 1)
      \<and> (sis_infected s = [] \<or> max_days c < sis_step_count s)
      \<and> (\<forall>d. 1 \<le> d \<and> int d < sis_step_count s \<longrightarrow> 0 < sis_simulated_I s ! d)
      \<and> (\<forall>pop g1. initialise (fixed c) g = Inr (pop, [], g1) \<longrightarrow> sis_step_count s = 0)"
    if run: "SIS_run c g = Inr s" for s
  proof -
    have md: "max_days (fixed c) = max_days c" by simp
    from SIS_inv_live(1-3) [OF SIS_run_inv(1) [OF run] md] SIS_run_inv(2) [OF run]
      SIS_run_no_seed [OF run]
    show ?thesis by blast
  qed
  have sir_done: "SIR_run c g = Inr (final r) \<and> 1 \<le> step_count (final r)"
    if fin: "create_SIR_simulation c g = Inr r" for r
  proof -
    from create_SIR_run [OF fin] have run: "SIR_run c g = Inr (final r)"
      and fr: "frames (final r) \<noteq> []" .
    from SIR_inv_live(1,4) [OF SIR_run_inv(1) [OF run] ] fr
    have "1 \<le> step_count (final r)" by linarith
    with run show ?thesis by simp
  qed
  have sis_done: "SIS_run c g = Inr (sis_final r) \<and> 1 \<le> sis_step_count (sis_final r)"
    if fin: "create_SIS_simulation c g = Inr r" for r
  proof -
    from create_SIS_run [OF fin] have run: "SIS_run c g = Inr (sis_final r)"
      and fr: "sis_frames (sis_final r) \<noteq> []" .
    have md: "max_days (fixed c) = max_days c" by simp
    from SIS_inv_live(1,4) [OF SIS_run_inv(1) [OF run] md] fr
    have "1 \<le> sis_step_count (sis_final r)" by linarith
    with run show ?thesis by simp
  qed
  show ?thesis
    using sir [of s] sis [of s'] sir [of "final r"] sis [of "sis_final r'"]
      sir_done [of r] sis_done [of r']
    by blast
qed

theorem run_loop_bounded_witness:
  "create_SIR_simulation cfg_one rng_two_days = Inr res_SIR_two_days
   \<and> step_count (final res_SIR_two_days) = 2
   \<and> infected (final res_SIR_two_days) = []
   \<and> 0 < simulated_I (final res_SIR_two_days) ! 1
   \<and> create_SIS_simulation cfg_custom rng_custom = Inr res_SIS_custom
   \<and> sis_step_count (sis_final res_SIS_custom) = max_days cfg_custom + 1
   \<and> sis_infected (sis_final res_SIS_custom) \<noteq> []
   \<and> SIR_run cfg_one rng_two_days = Inr (final res_SIR_two_days)
   \<and> SIS_run cfg_custom rng_custom = Inr (sis_final res_SIS_custom)"
  using run_loop_bounded [of cfg_one rng_two_days res_SIR_two_days _ "final res_SIR_two_days"]
    run_loop_bounded [of cfg_custom rng_custom _ res_SIS_custom _ "sis_final res_SIS_custom"]
    run_SIR_two_days run_SIS_custom loop_SIR_two_days loop_SIS_custom
  by (simp add: res_SIR_two_days_def res_SIS_custom_def cfg_one_def cfg_custom_def)

text \<open>
  C10. Day-0 trajectory entries are the requested seed, not the realized draw: the
  first entries of a run are \<open>simulated_I[0] = num_infected\<close>,
  \<open>simulated_S[0] = number_of_people - num_infected\<close> and, in SIR, \<open>simulated_R[0] = 0\<close>;
  the initial infected list holds the people whose own draw fell below
  \<open>num_infected / number_of_people\<close>; and there are a configuration and a generator
  for which the recorded day-0 count differs from the number of people placed in state
  \<^verbatim>\<open>'I'\<close>, in SIR and in SIS.
\<close>

theorem day0_is_requested_seed:
  "(create_SIR_simulation c g = Inr r \<longrightarrow>
      simulated_I (final r) ! 0 = num_infected c
      \<and> simulated_S (final r) ! 0 = number_of_people c - num_infected c
      \<and> simulated_R (final r) ! 0 = 0)
   \<and> (create_SIS_simulation c g = Inr r' \<longrightarrow>
      sis_simulated_I (sis_final r') ! 0 = num_infected c
      \<and> sis_simulated_S (sis_final r') ! 0 = number_of_people c - num_infected c)
   \<and> (initialise c g = Inr (pop, infd, g') \<longrightarrow>
      length pop = nat (number_of_people c)
      \<and> infd = filter (\<lambda>k. status (pop ! k) = St_I) [0..<length pop]
      \<and> (\<forall>k < length pop. status (pop ! k) =
            (if fst (random_random (\<lambda>m. g (m + 3 * k)))
                  < real_of_int (num_infected c) / real_of_int (number_of_people c)
             then St_I else St_S)))
   \<and> (\<exists>c g r pop infd g'. create_SIR_simulation c g = Inr r
        \<and> initialise c g = Inr (pop, infd, g')
        \<and> simulated_I (final r) ! 0 \<noteq> int (length infd))
   \<and> (\<exists>c g r pop infd g'. create_SIS_simulation c g = Inr r
        \<and> initialise (fixed c) g = Inr (pop, infd, g')
        \<and> sis_simulated_I (sis_final r) ! 0 \<noteq> int (length infd))
   \<and> (SIR_run c g = Inr s \<longrightarrow>
      simulated_I s ! 0 = num_infected c
      \<and> simulated_S s ! 0 = number_of_people c - num_infected c
      \<and> simulated_R s ! 0 = 0)
   \<and> (SIS_run c g = Inr s' \<longrightarrow>
      sis_simulated_I s' ! 0 = num_infected c
      \<and> sis_simulated_S s' ! 0 = number_of_people c - num_infected c)"
proof (intro conjI impI)
  assume run: "create_SIR_simulation c g = Inr r"
  from SIR_run_inv(1) [OF create_SIR_run(1) [OF run] ]
  show "simulated_I (final r) ! 0 = num_infected c"
    "simulated_S (final r) ! 0 = number_of_people c - num_infected c"
    "simulated_R (final r) ! 0 = 0"
    by (simp_all add: SIR_inv_def)
next
  assume run: "create_SIS_simulation c g = Inr r'"
  from SIS_run_inv(1) [OF create_SIS_run(1) [OF run] ]
  show "sis_simulated_I (sis_final r') ! 0 = num_infected c"
    "sis_simulated_S (sis_final r') ! 0 = number_of_people c - num_infected c"
    by (simp_all add: SIS_inv_def)
next
  assume init: "initialise c g = Inr (pop, infd, g')"
  from initialise_spec [OF init]
  show "length pop = nat (number_of_people c)"
    "infd = filter (\<lambda>k. status (pop ! k) = St_I) [0..<length pop]"
    "\<forall>k < length pop. status (pop ! k) =
            (if fst (random_random (\<lambda>m. g (m + 3 * k)))
                  < real_of_int (num_infected c) / real_of_int (number_of_people c)
             then St_I else St_S)"
    by blast+
next
  have "simulated_I (final res_SIR_two) ! 0 \<noteq> int (length [0::nat, 1])"
    by (simp add: res_SIR_two_def)
  with run_SIR_two init_two
  show "\<exists>c g r pop infd g'. create_SIR_simulation c g = Inr r
        \<and> initialise c g = Inr (pop, infd, g')
        \<and> simulated_I (final r) ! 0 \<noteq> int (length infd)"
    by blast
next
  have "sis_simulated_I (sis_final res_SIS_seeded) ! 0 \<noteq> int (length [0::nat, 1])"
    by (simp add: res_SIS_seeded_def)
  with run_SIS_seeded init_seeded
  show "\<exists>c g r pop infd g'. create_SIS_simulation c g = Inr r
        \<and> initialise (fixed c) g = Inr (pop, infd, g')
        \<and> sis_simulated_I (sis_final r) ! 0 \<noteq> int (length infd)"
    by blast
next
  assume run: "SIR_run c g = Inr s"
  from SIR_run_inv(1) [OF run]
  show "simulated_I s ! 0 = num_infected c"
    "simulated_S s ! 0 = number_of_people c - num_infected c"
    "simulated_R s ! 0 = 0"
    by (simp_all add: SIR_inv_def)
next
  assume run: "SIS_run c g = Inr s'"
  from SIS_run_inv(1) [OF run]
  show "sis_simulated_I s' ! 0 = num_infected c"
    "sis_simulated_S s' ! 0 = number_of_people c - num_infected c"
    by (simp_all add: SIS_inv_def)
qed

theorem day0_is_requested_seed_witness:
  "create_SIR_simulation cfg_two (replay []) = Inr res_SIR_two
   \<and> simulated_I (final res_SIR_two) ! 0 = 1
   \<and> create_SIS_simulation cfg_custom rng_custom = Inr res_SIS_custom
   \<and> sis_simulated_I (sis_final res_SIS_custom) ! 0 = 1
   \<and> initialise cfg_two (replay []) =
       Inr ([\<lparr>status = St_I, xpos = 0, ypos = 0\<rparr>, \<lparr>status = St_I, xpos = 0, ypos = 0\<rparr>],
            [0, 1], replay [])
   \<and> length [\<lparr>status = St_I, xpos = 0, ypos = 0\<rparr>, \<lparr>status = St_I, xpos = 0, ypos = 0\<rparr>]
       = nat (number_of_people cfg_two)
   \<and> SIR_run cfg_invalid (replay []) = Inr run_invalid
   \<and> simulated_I run_invalid ! 0 = 5
   \<and> SIS_run cfg_custom rng_custom = Inr (sis_final res_SIS_custom)"
  using day0_is_requested_seed [of cfg_two "replay []" res_SIR_two _
      "[\<lparr>status = St_I, xpos = 0, ypos = 0\<rparr>, \<lparr>status = St_I, xpos = 0, ypos = 0\<rparr>]"
      "[0, 1]" "replay []"]
    day0_is_requested_seed [of cfg_custom rng_custom _ res_SIS_custom _ _ _ _
      "sis_final res_SIS_custom"]
    day0_is_requested_seed [of cfg_invalid "replay []" _ _ _ _ _ run_invalid]
    run_SIR_two run_SIS_custom init_two loop_SIR_invalid loop_SIS_custom
  by (simp add: res_SIR_two_def res_SIS_custom_def run_invalid_def cfg_two_def cfg_custom_def
      cfg_invalid_def)

text \<open>
  C3. Spatial-grid cover: with the grid built with cell size \<open>infect_distance\<close>, every
  person \<open>p\<close> whose distance to a person \<open>i\<close> is strictly less than \<open>infect_distance\<close>
  lies in the cell of \<open>i\<close> or in one of its 8 adjacent cells, and the grid lists \<open>p\<close>
  in that cell. The scan that \<^verbatim>\<open>step\<close> makes for \<open>i\<close> applies the contact test to
  the candidates of the nine cells, of which \<open>p\<close> is one; and in a step whose contacts
  always succeed, a susceptible \<open>p\<close> within the radius of an \<open>i\<close> of the infected list
  comes out infected and on the returned list.
\<close>

theorem grid_cover:
  assumes "i < length pop" and "p < length pop"
    and "find_distance (pop ! i) (pop ! p) < infect_distance c"
  shows "\<exists>grid cell cell_p ps.
     populate_grid pop (infect_distance c) = Inr grid
     \<and> get_cell (xpos (pop ! i)) (ypos (pop ! i)) (infect_distance c) = Inr cell
     \<and> get_cell (xpos (pop ! p)) (ypos (pop ! p)) (infect_distance c) = Inr cell_p
     \<and> \<bar>fst cell_p - fst cell\<bar> \<le> 1 \<and> \<bar>snd cell_p - snd cell\<bar> \<le> 1
     \<and> cell_p \<in> set (neighbor_cells cell)
     \<and> grid cell_p = Some ps \<and> p \<in> set ps
     \<and> p \<in> set (candidates grid cell)
     \<and> (\<forall>st. fold (scan_cell c grid i) (neighbor_cells cell) st
              = fold (contact c i) (candidates grid cell) st)
     \<and> (\<forall>rs new rec g.
           visit c rs grid (infect_distance c) i (pop, new, rec, g) =
             (let (pop1, new1, g1) = fold (contact c i) (candidates grid cell) (pop, new, g);
                  (u, g2) = random_random g1
              in if u < recover_rate c
                 then Inr (pop1[i := (pop1 ! i)\<lparr>status := rs\<rparr>], new1, rec @ [i], g2)
                 else Inr (pop1, new1, rec, g2)))
     \<and> (\<forall>rs infd g pop' infd' n g'.
           i \<in> set infd \<and> p \<notin> set infd \<and> status (pop ! p) = St_S \<and> 1 \<le> infect_rate c
           \<and> step c rs pop infd (infect_distance c) g = Inr (pop', infd', n, g')
           \<longrightarrow> status (pop' ! p) = St_I \<and> p \<in> set infd')"
proof -
  let ?d = "infect_distance c"
  let ?cell = "cell_of pop ?d i" and ?cell_p = "cell_of pop ?d p"
  let ?ps = "filter (\<lambda>q. cell_of pop ?d q = ?cell_p) [0..<length pop]"
  from cover(1) [OF assms] obtain grid where grid: "populate_grid pop ?d = Inr grid"
    by blast
  note ci = cover(2) [OF assms] and cp = cover(3) [OF assms]
    and nx = cover(4) [OF assms] and ny = cover(5) [OF assms] and nb = cover(6) [OF assms]
    and look = cover(7) [OF assms grid] and cand = cover(8) [OF assms grid]
  have mem: "p \<in> set ?ps" using assms(2) by simp
  have scan: "\<forall>st. fold (scan_cell c grid i) (neighbor_cells ?cell) st
              = fold (contact c i) (candidates grid ?cell) st"
    by (simp add: scan_candidates)
  have vis: "\<forall>rs new rec g.
           visit c rs grid ?d i (pop, new, rec, g) =
             (let (pop1, new1, g1) = fold (contact c i) (candidates grid ?cell) (pop, new, g);
                  (u, g2) = random_random g1
              in if u < recover_rate c
                 then Inr (pop1[i := (pop1 ! i)\<lparr>status := rs\<rparr>], new1, rec @ [i], g2)
                 else Inr (pop1, new1, rec, g2))"
    by (simp only: visit_candidates ci sum.case simp_thms)
  have stp: "\<forall>rs infd g pop' infd' n g'.
           i \<in> set infd \<and> p \<notin> set infd \<and> status (pop ! p) = St_S \<and> 1 \<le> infect_rate c
           \<and> step c rs pop infd ?d g = Inr (pop', infd', n, g')
           \<longrightarrow> status (pop' ! p) = St_I \<and> p \<in> set infd'"
    using step_infects [OF _ _ assms(1) assms(2) _ _ assms(3)] by blast
  from grid ci cp nx ny nb look mem cand scan vis stp show ?thesis by blast
qed

theorem grid_cover_witness:
  "(0::nat) < length pop_cells \<and> 1 < length pop_cells
   \<and> find_distance (pop_cells ! 0) (pop_cells ! 1) < infect_distance cfg_sure
   \<and> get_cell (xpos (pop_cells ! 0)) (ypos (pop_cells ! 0)) (infect_distance cfg_sure) = Inr (0, 0)
   \<and> get_cell (xpos (pop_cells ! 1)) (ypos (pop_cells ! 1)) (infect_distance cfg_sure) = Inr (1, 0)
   \<and> 0 \<in> set [0::nat] \<and> 1 \<notin> set [0::nat] \<and> status (pop_cells ! 1) = St_S
   \<and> 1 \<le> infect_rate cfg_sure
   \<and> step cfg_sure St_S pop_cells [0] (infect_distance cfg_sure) (replay [0, half]) =
        Inr ([\<lparr>status = St_I, xpos = 9, ypos = 5\<rparr>, \<lparr>status = St_I, xpos = 12, ypos = 5\<rparr>],
             [0, 1], 0, replay [])
   \<and> status ([\<lparr>status = St_I, xpos = 9, ypos = 5\<rparr>, \<lparr>status = St_I, xpos = 12, ypos = 5\<rparr>] ! 1)
        = St_I
   \<and> 1 \<in> set [0::nat, 1]
   \<and> (\<exists>grid cell.
         populate_grid pop_cells (infect_distance cfg_sure) = Inr grid
         \<and> get_cell (xpos (pop_cells ! 0)) (ypos (pop_cells ! 0)) (infect_distance cfg_sure)
             = Inr cell
         \<and> 1 \<in> set (candidates grid cell))"
proof -
  have h1: "(0::nat) < length pop_cells" and h2: "1 < length pop_cells"
    by (simp_all add: pop_cells_def)
  have h3: "find_distance (pop_cells ! 0) (pop_cells ! 1) < infect_distance cfg_sure"
    by (simp add: find_distance_lt_numeral pop_cells_def cfg_sure_def cfg_two_def)
  have cells:
    "get_cell (xpos (pop_cells ! 0)) (ypos (pop_cells ! 0)) (infect_distance cfg_sure) = Inr (0, 0)"
    "get_cell (xpos (pop_cells ! 1)) (ypos (pop_cells ! 1)) (infect_distance cfg_sure) = Inr (1, 0)"
    by (simp_all add: get_cell_numeral pop_cells_def cfg_sure_def cfg_two_def)
  have pre: "0 \<in> set [0::nat]" "1 \<notin> set [0::nat]" "status (pop_cells ! 1) = St_S"
    "1 \<le> infect_rate cfg_sure"
    by (simp_all add: pop_cells_def cfg_sure_def cfg_two_def)
  have run: "step cfg_sure St_S pop_cells [0] (infect_distance cfg_sure) (replay [0, half]) =
        Inr ([\<lparr>status = St_I, xpos = 9, ypos = 5\<rparr>, \<lparr>status = St_I, xpos = 12, ypos = 5\<rparr>],
             [0, 1], 0, replay [])"
    by (simp add: run_defs pop_cells_def cfg_sure_def cfg_two_def)
  from grid_cover [OF h1 h2 h3] obtain grid cell where
    g: "populate_grid pop_cells (infect_distance cfg_sure) = Inr grid"
    and c: "get_cell (xpos (pop_cells ! 0)) (ypos (pop_cells ! 0)) (infect_distance cfg_sure)
             = Inr cell"
    and m: "1 \<in> set (candidates grid cell)"
    and s: "\<forall>rs infd g pop' infd' n g'.
           0 \<in> set infd \<and> 1 \<notin> set infd \<and> status (pop_cells ! 1) = St_S
           \<and> 1 \<le> infect_rate cfg_sure
           \<and> step cfg_sure rs pop_cells infd (infect_distance cfg_sure) g = Inr (pop', infd', n, g')
           \<longrightarrow> status (pop' ! 1) = St_I \<and> 1 \<in> set infd'"
    by blast
  from s pre run have post:
    "status ([\<lparr>status = St_I, xpos = 9, ypos = 5\<rparr>, \<lparr>status = St_I, xpos = 12, ypos = 5\<rparr>] ! 1)
        = St_I \<and> 1 \<in> set [0::nat, 1]"
    by blast
  from h1 h2 h3 cells pre run post g c m show ?thesis by blast
qed

text \<open>
  C6. Configuration validation. As stated, the claim fails. \<open>cfg_invalid\<close> has a zero
  width, \<open>num_infected > number_of_people\<close> and both rates above 1: the run on it
  executes a day, and what it raises, after the day loop, is the
  \<^verbatim>\<open>ZeroDivisionError\<close> of the model function. \<open>cfg_rates\<close> has positive dimensions,
  \<open>num_infected > number_of_people\<close>, a negative \<open>infect_rate\<close> and a \<open>recover_rate\<close>
  above 1: the run on it executes a day and completes.
\<close>

theorem configuration_validation_counterexample:
  "SIR_run cfg_invalid (replay []) = Inr run_invalid
   \<and> step_count run_invalid = 1
   \<and> create_SIR_simulation cfg_invalid (replay []) = Inl ZeroDivisionError
   \<and> width cfg_invalid \<le> 0
   \<and> number_of_people cfg_invalid < num_infected cfg_invalid
   \<and> 1 < infect_rate cfg_invalid \<and> 1 < recover_rate cfg_invalid
   \<and> create_SIR_simulation cfg_rates (replay []) = Inr res_SIR_rates
   \<and> step_count (final res_SIR_rates) = 1
   \<and> number_of_people cfg_rates < num_infected cfg_rates
   \<and> infect_rate cfg_rates < 0 \<and> 1 < recover_rate cfg_rates"
  using loop_SIR_invalid run_SIR_invalid run_SIR_rates
  by (simp add: run_invalid_def res_SIR_rates_def cfg_invalid_def cfg_rates_def)

text \<open>
  C6, amended. The simulation does not validate its configuration; what stops a run is
  the exception of whichever operation fails first. With a negative width or height the
  run stops before any stepping, with the \<^verbatim>\<open>ValueError\<close> of \<^verbatim>\<open>random.randint\<close>, the
  \<^verbatim>\<open>OverflowError\<close> of the division \<open>num_infected / number_of_people\<close>, or the error
  of \<^verbatim>\<open>pygame.display.set_mode\<close>. With a width and a height that are not negative,
  a display that opens at that size and a quotient \<open>num_infected / number_of_people\<close>
  within the range of a float, whatever \<open>infect_rate\<close>, \<open>recover_rate\<close> and
  \<open>num_infected\<close> are, \<open>number_of_people\<close> people are placed and the day loop starts
  on them: it executes a day if somebody was placed infected and \<open>max_days\<close> is not
  negative. With a zero width or height the run does not complete:
  if nothing stops it earlier, the model function divides by zero after the day loop.
\<close>

theorem no_configuration_validation:
  "(width c < 0 \<or> height c < 0 \<longrightarrow>
      (\<exists>e. (e = ValueError \<or> e = OverflowError \<or> e = PygameError)
          \<and> SIR_setup c g = Inl e \<and> SIR_run c g = Inl e
          \<and> create_SIR_simulation c g = Inl e)
      \<and> (\<exists>e. (e = ValueError \<or> e = OverflowError \<or> e = PygameError)
          \<and> SIS_setup (fixed c) g = Inl e \<and> SIS_run c g = Inl e
          \<and> create_SIS_simulation c g = Inl e))
   \<and> (0 \<le> width c \<and> 0 \<le> height c \<and> set_mode (width c) (height c) = Inr ()
       \<and> (0 < number_of_people c \<longrightarrow>
            \<bar>real_of_int (num_infected c) / real_of_int (number_of_people c)\<bar> < float_limit)
      \<longrightarrow>
      (\<exists>s0. SIR_setup c g = Inr s0
          \<and> length (people s0) = nat (number_of_people c) \<and> step_count s0 = 0
          \<and> SIR_run c g = SIR_loop c s0
          \<and> (infected s0 \<noteq> [] \<and> 0 \<le> max_days c \<longrightarrow>
                SIR_run c g = (case SIR_day c s0 of Inl e \<Rightarrow> Inl e | Inr s1 \<Rightarrow> SIR_loop c s1)))
      \<and> (\<exists>s0. SIS_setup (fixed c) g = Inr s0
          \<and> length (sis_people s0) = nat (number_of_people c) \<and> sis_step_count s0 = 0
          \<and> SIS_run c g = SIS_loop (fixed c) s0
          \<and> (sis_infected s0 \<noteq> [] \<and> 0 \<le> max_days c \<longrightarrow>
                SIS_run c g =
                  (case SIS_day (fixed c) s0 of Inl e \<Rightarrow> Inl e | Inr s1 \<Rightarrow> SIS_loop (fixed c) s1))))
   \<and> (width c * height c = 0 \<longrightarrow>
        (\<exists>e. create_SIR_simulation c g = Inl e) \<and> (\<exists>e. create_SIS_simulation c g = Inl e))"
proof (intro conjI impI)
  assume neg: "width c < 0 \<or> height c < 0"
  have "(\<exists>e. (e = ValueError \<or> e = OverflowError) \<and> initialise c g = Inl e)
      \<or> (\<exists>x. initialise c g = Inr x)"
  proof (cases "0 < number_of_people c")
    case True
    from initialise_negative [OF True neg, of g] show ?thesis
      by (cases "float_limit \<le> \<bar>real_of_int (num_infected c) / real_of_int (number_of_people c)\<bar>")
        auto
  next
    case False
    then have "initialise c g = Inr ([], [], g)" by (simp add: initialise_def)
    then show ?thesis by blast
  qed
  then obtain e where e: "e = ValueError \<or> e = OverflowError \<or> e = PygameError"
    and su: "SIR_setup c g = Inl e" and su': "SIS_setup (fixed c) g = Inl e"
    using neg
    by (auto simp: SIR_setup_def SIS_setup_def set_mode_def initialise_fixed split: prod.splits)
  from su have "SIR_run c g = Inl e" "create_SIR_simulation c g = Inl e"
    by (simp_all add: SIR_run_def create_SIR_simulation_def)
  with e su
  show "\<exists>e. (e = ValueError \<or> e = OverflowError \<or> e = PygameError)
          \<and> SIR_setup c g = Inl e \<and> SIR_run c g = Inl e
          \<and> create_SIR_simulation c g = Inl e"
    by blast
  from su' have "SIS_run c g = Inl e" "create_SIS_simulation c g = Inl e"
    by (simp_all add: SIS_run_def create_SIS_simulation_def)
  with e su'
  show "\<exists>e. (e = ValueError \<or> e = OverflowError \<or> e = PygameError)
          \<and> SIS_setup (fixed c) g = Inl e \<and> SIS_run c g = Inl e
          \<and> create_SIS_simulation c g = Inl e"
    by blast
next
  assume ok: "0 \<le> width c \<and> 0 \<le> height c \<and> set_mode (width c) (height c) = Inr ()
       \<and> (0 < number_of_people c \<longrightarrow>
            \<bar>real_of_int (num_infected c) / real_of_int (number_of_people c)\<bar> < float_limit)"
  then have w: "0 \<le> width c" and h: "0 \<le> height c"
    and sm: "set_mode (width c) (height c) = Inr ()"
    and q: "0 < number_of_people c \<longrightarrow>
            \<bar>real_of_int (num_infected c) / real_of_int (number_of_people c)\<bar> < float_limit"
    by blast+
  from initialise_ok [OF w h q] obtain pop infd g1 where
    init: "initialise c g = Inr (pop, infd, g1)" by blast
  from initialise_spec(1) [OF init] have len: "length pop = nat (number_of_people c)" .
  let ?s0 = "\<lparr>people = pop, infected = infd, frames = [], step_count = 0,
               simulated_S = [number_of_people c - num_infected c],
               simulated_I = [num_infected c], simulated_R = [0], gen = g1\<rparr>"
  have su: "SIR_setup c g = Inr ?s0"
    using init sm by (simp add: SIR_setup_def)
  then have run: "SIR_run c g = SIR_loop c ?s0" by (simp add: SIR_run_def)
  have first: "SIR_run c g = (case SIR_day c ?s0 of Inl e \<Rightarrow> Inl e | Inr s1 \<Rightarrow> SIR_loop c s1)"
    if "infected ?s0 \<noteq> [] \<and> 0 \<le> max_days c"
    using that run SIR_loop_go [of ?s0 c] by simp
  from su len run first
  show "\<exists>s0. SIR_setup c g = Inr s0
          \<and> length (people s0) = nat (number_of_people c) \<and> step_count s0 = 0
          \<and> SIR_run c g = SIR_loop c s0
          \<and> (infected s0 \<noteq> [] \<and> 0 \<le> max_days c \<longrightarrow>
                SIR_run c g = (case SIR_day c s0 of Inl e \<Rightarrow> Inl e | Inr s1 \<Rightarrow> SIR_loop c s1))"
    by (intro exI [of _ ?s0]) simp
  let ?t0 = "\<lparr>sis_people = pop, sis_infected = infd, sis_frames = [], sis_step_count = 0,
               sis_simulated_S = [number_of_people c - num_infected c],
               sis_simulated_I = [num_infected c], sis_gen = g1\<rparr>"
  have su': "SIS_setup (fixed c) g = Inr ?t0"
    using init sm by (simp add: SIS_setup_def initialise_fixed)
  then have run': "SIS_run c g = SIS_loop (fixed c) ?t0" by (simp add: SIS_run_def)
  have first': "SIS_run c g =
      (case SIS_day (fixed c) ?t0 of Inl e \<Rightarrow> Inl e | Inr s1 \<Rightarrow> SIS_loop (fixed c) s1)"
    if "sis_infected ?t0 \<noteq> [] \<and> 0 \<le> max_days c"
    using that run' SIS_loop_go [of ?t0 "fixed c"] by simp
  from su' len run' first'
  show "\<exists>s0. SIS_setup (fixed c) g = Inr s0
          \<and> length (sis_people s0) = nat (number_of_people c) \<and> sis_step_count s0 = 0
          \<and> SIS_run c g = SIS_loop (fixed c) s0
          \<and> (sis_infected s0 \<noteq> [] \<and> 0 \<le> max_days c \<longrightarrow>
                SIS_run c g =
                  (case SIS_day (fixed c) s0 of Inl e \<Rightarrow> Inl e | Inr s1 \<Rightarrow> SIS_loop (fixed c) s1))"
    by (intro exI [of _ ?t0]) simp
next
  assume zero: "width c * height c = 0"
  have lim: "\<not> float_limit \<le> 0" using float_limit_big by linarith
  have area: "to_float (width c * height c) = Inr 0"
    using lim by (simp only: zero to_float_def of_int_0 abs_zero if_False)
  have "sir_model y tm beta gamma radius (width c, height c) = Inl ZeroDivisionError"
    for y tm beta gamma radius
    by (simp add: sir_model_def area split: prod.splits)
  then have "\<not> (\<exists>r. SIR_finish c s = Inr r)" for s
    by (auto simp: SIR_finish_def odeint_def split: sum.splits list.splits)
  then show "\<exists>e. create_SIR_simulation c g = Inl e"
    by (cases "create_SIR_simulation c g")
      (auto simp: create_SIR_simulation_def split: sum.splits)
  have "sis_model y tm beta gamma radius (width c, height c) = Inl ZeroDivisionError"
    for y tm beta gamma radius
    by (simp add: sis_model_def area split: prod.splits)
  then have "\<not> (\<exists>r. SIS_finish (fixed c) s = Inr r)" for s
    by (auto simp: SIS_finish_def odeint_def split: sum.splits list.splits)
  then show "\<exists>e. create_SIS_simulation c g = Inl e"
    by (cases "create_SIS_simulation c g")
      (auto simp: create_SIS_simulation_def Let_def split: sum.splits)
qed

theorem no_configuration_validation_witness:
  "width cfg_negative < 0
   \<and> create_SIR_simulation cfg_negative (replay []) = Inl ValueError
   \<and> create_SIS_simulation cfg_negative (replay []) = Inl ValueError
   \<and> width cfg_negative_empty < 0
   \<and> create_SIR_simulation cfg_negative_empty (replay []) = Inl PygameError
   \<and> 0 \<le> width cfg_invalid \<and> 0 \<le> height cfg_invalid
   \<and> set_mode (width cfg_invalid) (height cfg_invalid) = Inr ()
   \<and> \<bar>real_of_int (num_infected cfg_invalid) / real_of_int (number_of_people cfg_invalid)\<bar>
        < float_limit
   \<and> (\<exists>s0. SIR_setup cfg_invalid (replay []) = Inr s0
          \<and> length (people s0) = nat (number_of_people cfg_invalid) \<and> step_count s0 = 0
          \<and> SIR_run cfg_invalid (replay []) = SIR_loop cfg_invalid s0
          \<and> infected s0 \<noteq> []
          \<and> SIR_run cfg_invalid (replay []) =
               (case SIR_day cfg_invalid s0 of Inl e \<Rightarrow> Inl e | Inr s1 \<Rightarrow> SIR_loop cfg_invalid s1))
   \<and> width cfg_invalid * height cfg_invalid = 0
   \<and> (\<exists>e. create_SIR_simulation cfg_invalid (replay []) = Inl e)
   \<and> (\<exists>e. create_SIS_simulation cfg_invalid (replay []) = Inl e)"
proof -
  have neg: "width cfg_negative < 0" "width cfg_negative_empty < 0"
    by (simp_all add: cfg_negative_def cfg_negative_empty_def)
  have r1: "create_SIR_simulation cfg_negative (replay []) = Inl ValueError"
    and r2: "create_SIS_simulation cfg_negative (replay []) = Inl ValueError"
    and r3: "create_SIR_simulation cfg_negative_empty (replay []) = Inl PygameError"
    using no_configuration_validation [of cfg_negative "replay []"]
    by (simp_all add: run_defs cfg_negative_def cfg_negative_empty_def cfg_one_def)
  have ok: "0 \<le> width cfg_invalid \<and> 0 \<le> height cfg_invalid
       \<and> set_mode (width cfg_invalid) (height cfg_invalid) = Inr ()
       \<and> (0 < number_of_people cfg_invalid \<longrightarrow>
            \<bar>real_of_int (num_infected cfg_invalid) / real_of_int (number_of_people cfg_invalid)\<bar>
              < float_limit)"
    and q: "\<bar>real_of_int (num_infected cfg_invalid) / real_of_int (number_of_people cfg_invalid)\<bar>
              < float_limit"
    using float_limit_big by (simp_all add: cfg_invalid_def set_mode_def)
  have zero: "width cfg_invalid * height cfg_invalid = 0" by (simp add: cfg_invalid_def)
  have md: "0 \<le> max_days cfg_invalid" by (simp add: cfg_invalid_def)
  from no_configuration_validation [of cfg_invalid "replay []"] ok obtain s0 where
    s0: "SIR_setup cfg_invalid (replay []) = Inr s0"
      "length (people s0) = nat (number_of_people cfg_invalid)" "step_count s0 = 0"
      "SIR_run cfg_invalid (replay []) = SIR_loop cfg_invalid s0"
    and day: "infected s0 \<noteq> [] \<and> 0 \<le> max_days cfg_invalid \<longrightarrow>
                SIR_run cfg_invalid (replay []) =
                  (case SIR_day cfg_invalid s0 of Inl e \<Rightarrow> Inl e | Inr s1 \<Rightarrow> SIR_loop cfg_invalid s1)"
    by blast
  from s0(1) have inf: "infected s0 \<noteq> []"
    by (auto simp: run_defs cfg_invalid_def)
  from no_configuration_validation [of cfg_invalid "replay []"] zero
  have fail: "(\<exists>e. create_SIR_simulation cfg_invalid (replay []) = Inl e)"
    "(\<exists>e. create_SIS_simulation cfg_invalid (replay []) = Inl e)"
    by blast+
  from neg r1 r2 r3 ok q s0 day inf md zero fail show ?thesis by blast
qed

text \<open>
  C7. Configuration options are honoured by the SIS variant. The code does not do it:
  the run does not depend on the \<open>infect_distance\<close>, \<open>max_move\<close> and \<open>simulation_name\<close>
  it is given. On \<open>cfg_custom\<close>, which asks for radius 1 and no movement, the
  susceptible person five units away from the infected one is infected, the first
  person moves by three units, and the files are named after \<^verbatim>\<open>simulation1\<close>.
\<close>

theorem SIS_ignores_options:
  "create_SIS_simulation (c\<lparr>infect_distance := d, max_move := m, simulation_name := n\<rparr>) g
     = create_SIS_simulation c g
   \<and> infect_distance cfg_custom = 1 \<and> max_move cfg_custom = 0
   \<and> simulation_name cfg_custom = ''run7''
   \<and> initialise (fixed cfg_custom) rng_custom =
       Inr ([\<lparr>status = St_I, xpos = 100, ypos = 100\<rparr>, \<lparr>status = St_S, xpos = 103, ypos = 104\<rparr>],
            [0], replay [0, half, 8, 5, 5, 5])
   \<and> create_SIS_simulation cfg_custom rng_custom = Inr res_SIS_custom
   \<and> sis_people (sis_final res_SIS_custom) =
       [\<lparr>status = St_I, xpos = 103, ypos = 100\<rparr>, \<lparr>status = St_I, xpos = 103, ypos = 104\<rparr>]
   \<and> sis_output_gif_path res_SIS_custom = ''simulations/simulation1_SIS.gif''"
proof -
  have "create_SIS_simulation (c\<lparr>infect_distance := d, max_move := m, simulation_name := n\<rparr>) g
     = create_SIS_simulation c g"
    by (simp add: create_SIS_simulation_def SIS_run_def)
  with init_custom run_SIS_custom show ?thesis
    by (simp add: cfg_custom_def res_SIS_custom_def)
qed

text \<open>
  C8. Model-trajectory horizon. The time grid has \<open>step_count + 1\<close> entries, as many as
  the agent-based lists, but it is \<^verbatim>\<open>np.linspace(0, step_count + 1, step_count + 1)\<close>:
  it ends at \<open>step_count + 1\<close>, not at the number of days run, and its entries are not
  the days. After two simulated days the grid is \<open>[0, 3/2, 3]\<close> in SIR, and after one day
  it is \<open>[0, 2]\<close> in SIS.
\<close>

theorem model_time_grid_overshoots:
  "create_SIR_simulation cfg_one rng_two_days = Inr res_SIR_two_days
   \<and> step_count (final res_SIR_two_days) = 2
   \<and> simulated_I (final res_SIR_two_days) = [1, 1, 0]
   \<and> t res_SIR_two_days = [0, 3 / 2, 3]
   \<and> create_SIS_simulation cfg_custom rng_custom = Inr res_SIS_custom
   \<and> sis_step_count (sis_final res_SIS_custom) = 1
   \<and> sis_simulated_I (sis_final res_SIS_custom) = [1, 2]
   \<and> sis_t res_SIS_custom = [0, 2]"
  using run_SIR_two_days run_SIS_custom
  by (simp add: res_SIR_two_days_def res_SIS_custom_def)

text \<open>
  C9. Coordinate domain. Initial placement draws \<^verbatim>\<open>random.randint(0, width)\<close> and
  \<^verbatim>\<open>random.randint(0, height)\<close>, whose upper bounds are inclusive: with \<open>width = 500\<close>
  and \<open>height = 500\<close> a person can be placed at \<open>(500, 500)\<close>, in SIR and in SIS.
\<close>

theorem initial_placement_on_boundary:
  "width cfg_one = 500 \<and> height cfg_one = 500
   \<and> initialise cfg_one (replay [0, 500, 500]) =
       Inr ([\<lparr>status = St_I, xpos = 500, ypos = 500\<rparr>], [0], replay [])
   \<and> initialise (fixed cfg_one) (replay [0, 500, 500]) =
       Inr ([\<lparr>status = St_I, xpos = 500, ypos = 500\<rparr>], [0], replay [])"
  by (simp add: run_defs cfg_one_def)

text \<open>
  C2. Infected-set consistency. The SIS \<^verbatim>\<open>step\<close> breaks it. Three infected people,
  the first two on the same point, are the initial state of a SIS run. In the first
  step the second person recovers and is infected again by the third; the removal of the
  recovered person, which compares contents, removes the first person instead. The
  returned list is \<open>[1, 2, 1]\<close>: person 1 twice, person 0 missing, all three in state
  \<^verbatim>\<open>'I'\<close>.
\<close>

theorem SIS_step_infected_list_drifts:
  "initialise (fixed cfg_three) (replay [0, 5, 5, 0, 5, 5, 0, 6, 5, half, 0, 0, half]) =
     Inr (pop_twins, [0, 1, 2], replay [half, 0, 0, half])
   \<and> step (fixed cfg_three) St_S pop_twins [0, 1, 2] (infect_distance (fixed cfg_three))
       (replay [half, 0, 0, half]) =
     Inr (pop_twins, [1, 2, 1], 1, replay [])
   \<and> map status pop_twins = [St_I, St_I, St_I]"
  by (simp add: run_defs cfg_three_def pop_twins_def)

text \<open>
  C4. SIS recovery timing. The SIS \<^verbatim>\<open>step\<close> writes \<^verbatim>\<open>'S'\<close> as soon as a person
  recovers, while later infected people of the same loop are still to be visited. Of two
  infected neighbours the first recovers and the second infects it again in the same
  call: after the loop person 0 is both in \<^verbatim>\<open>recover\<close> and in \<^verbatim>\<open>new_infected\<close>, and
  \<^verbatim>\<open>step\<close> returns it in the infected list, in state \<^verbatim>\<open>'I'\<close>, with a recovered count
  of 1.
\<close>

theorem SIS_reinfected_in_same_step:
  "(case populate_grid pop_pair 10 of
      Inl e \<Rightarrow> Inl e
    | Inr grid \<Rightarrow> visit_all cfg_one St_S grid 10 [0, 1] (pop_pair, [], [], replay [0, 0, half]))
     = Inr (pop_pair, [0], [0], replay [])
   \<and> step cfg_one St_S pop_pair [0, 1] 10 (replay [0, 0, half]) =
     Inr (pop_pair, [1, 0], 1, replay [])
   \<and> map status pop_pair = [St_I, St_I]"
  by (simp add: run_defs cfg_one_def pop_pair_def)

end
